theory Spec2Isabelle
  imports
    Complex_Main
    "HOL-Library.Monad_Syntax"
    "HOL-Library.Signed_Division"
    "HOL-Library.Word"
begin

section \<open>Memory model\<close>

text \<open>
  The program is \<^verbatim>\<open>run.c\<close>: inference for a Llama-2 transformer in C.

  A C \<^verbatim>\<open>float\<close> is modelled as a real number: rounding, infinities and NaN are
  not part of the model. The properties proved below are about control flow, index
  arithmetic and which cells of which buffer are read and written; they use of the
  arithmetic only that it is a deterministic function of its operands and that
  \<open><\<close> is a linear order.

  A C \<^verbatim>\<open>int\<close> has 32 bits, and an operation on ints whose result does not fit is
  undefined behaviour. The values are integers of the model; \<open>c_int\<close> says that
  an integer is the value of an \<^verbatim>\<open>int\<close>. The products that the loader computes from
  the header of the file are checked products (\<open>c_mul\<close>); \<^verbatim>\<open>/\<close> on ints
  truncates towards zero (\<open>sdiv\<close>) and is undefined for the divisor 0 and for
  \<^verbatim>\<open>INT_MIN / -1\<close>. The index arithmetic of the forward pass and of the allocation
  is written with the operations on integers; the theorems that say that these run to
  their end carry the hypothesis \<open>config_ok\<close>, which bounds every product by
  \<^verbatim>\<open>INT_MAX\<close>, and \<open>row_ok\<close> for the product with a token id.

  A buffer (\<^verbatim>\<open>float*\<close> from \<^verbatim>\<open>calloc\<close>, or the mapped checkpoint file) is a
  list. A read or write outside the buffer is undefined behaviour in C; in the model
  it is the result \<open>None\<close>, and so is an undefined operation on ints. A function
  of the model returns \<open>Some\<close> exactly when the C function runs to its end
  without any of these.
\<close>

type_synonym float = real

definition rd :: "'a list \<Rightarrow> int \<Rightarrow> 'a option" where
  "rd buf i = (if 0 \<le> i \<and> i < int (length buf) then Some (buf ! nat i) else None)"

definition wr :: "'a list \<Rightarrow> int \<Rightarrow> 'a \<Rightarrow> 'a list option" where
  "wr buf i a = (if 0 \<le> i \<and> i < int (length buf) then Some (buf[nat i := a]) else None)"

definition c_int :: "int \<Rightarrow> bool" where
  "c_int a \<longleftrightarrow> - 2147483648 \<le> a \<and> a \<le> 2147483647"

definition c_mul :: "int \<Rightarrow> int \<Rightarrow> int option" where
  "c_mul a b = (if c_int (a * b) then Some (a * b) else None)"

definition c_div :: "int \<Rightarrow> int \<Rightarrow> int option" where
  "c_div a b = (if b = 0 \<or> (a = - 2147483648 \<and> b = - 1) then None else Some (a sdiv b))"

text \<open>\<^verbatim>\<open>for (int i = lo; i < n; i++) body\<close>, the loop state passed explicitly.\<close>

function for_loop :: "int \<Rightarrow> int \<Rightarrow> (int \<Rightarrow> 's \<Rightarrow> 's option) \<Rightarrow> 's \<Rightarrow> 's option" where
  "for_loop i n body s =
     (if i < n then Option.bind (body i s) (for_loop (i + 1) n body) else Some s)"
  by pat_completeness auto
termination
  by (relation "measure (\<lambda>(i, n, body, s). nat (n - i))") auto

declare for_loop.simps [simp del]

text \<open>\<^verbatim>\<open>for (int i = lo; i < n; i += 2) body\<close>.\<close>

function for_loop2 :: "int \<Rightarrow> int \<Rightarrow> (int \<Rightarrow> 's \<Rightarrow> 's option) \<Rightarrow> 's \<Rightarrow> 's option" where
  "for_loop2 i n body s =
     (if i < n then Option.bind (body i s) (for_loop2 (i + 2) n body) else Some s)"
  by pat_completeness auto
termination
  by (relation "measure (\<lambda>(i, n, body, s). nat (n - i))") auto

declare for_loop2.simps [simp del]

section \<open>Configuration, weights and run state\<close>

text \<open>The struct \<^verbatim>\<open>Config\<close>, lines 24 to 32.\<close>

record Config =
  dim :: int
  hidden_dim :: int
  n_layers :: int
  n_heads :: int
  n_kv_heads :: int
  vocab_size :: int
  seq_len :: int

text \<open>
  The struct \<^verbatim>\<open>TransformerWeights\<close>, lines 34 to 56. Every field is a pointer into
  the mapped checkpoint; it is modelled as the offset, counted in floats, from
  \<^verbatim>\<open>weights_ptr\<close> (the first float after the header). The floats from \<^verbatim>\<open>weights_ptr\<close>
  to the end of the mapping are one list, called \<open>wbuf\<close> below.
\<close>

record TransformerWeights =
  token_embedding_table :: int
  rms_att_weight :: int
  rms_ffn_weight :: int
  wq :: int
  wk :: int
  wv :: int
  wo :: int
  w1 :: int
  w2 :: int
  w3 :: int
  rms_final_weight :: int
  freq_cis_real :: int
  freq_cis_imag :: int
  wcls :: int

text \<open>
  The struct \<^verbatim>\<open>RunState\<close>, lines 58 to 73; the fields carry the prefix \<open>rs_\<close>
  (the C names \<^verbatim>\<open>x\<close>, \<^verbatim>\<open>q\<close>, \<^verbatim>\<open>k\<close>, \<^verbatim>\<open>v\<close> would capture variables).
\<close>

record RunState =
  rs_x :: "float list"
  rs_xb :: "float list"
  rs_xb2 :: "float list"
  rs_hb :: "float list"
  rs_hb2 :: "float list"
  rs_q :: "float list"
  rs_k :: "float list"
  rs_v :: "float list"
  rs_att :: "float list"
  rs_logits :: "float list"
  rs_key_cache :: "float list"
  rs_value_cache :: "float list"

text \<open>
  \<^verbatim>\<open>calloc(n, sizeof(float))\<close> with an \<^verbatim>\<open>int\<close> count: a negative count converts to
  a huge \<^verbatim>\<open>size_t\<close> and the allocation fails. A failure for lack of memory depends on
  the machine and is not modelled.
\<close>

definition calloc :: "int \<Rightarrow> float list option" where
  "calloc n = (if n < 0 then None else Some (replicate (nat n) 0))"

text \<open>
  \<^verbatim>\<open>malloc_run_state\<close>, lines 75 to 96. \<open>None\<close> is the exit with
  \<^verbatim>\<open>malloc failed!\<close>.
\<close>

definition malloc_run_state :: "Config \<Rightarrow> RunState option" where
  "malloc_run_state p = do {
     x \<leftarrow> calloc (dim p);
     xb \<leftarrow> calloc (dim p);
     xb2 \<leftarrow> calloc (dim p);
     hb \<leftarrow> calloc (hidden_dim p);
     hb2 \<leftarrow> calloc (hidden_dim p);
     q \<leftarrow> calloc (dim p);
     k \<leftarrow> calloc (dim p);
     v \<leftarrow> calloc (dim p);
     att \<leftarrow> calloc (n_heads p * seq_len p);
     logits \<leftarrow> calloc (vocab_size p);
     key_cache \<leftarrow> calloc (n_layers p * seq_len p * dim p);
     value_cache \<leftarrow> calloc (n_layers p * seq_len p * dim p);
     Some \<lparr>rs_x = x, rs_xb = xb, rs_xb2 = xb2, rs_hb = hb, rs_hb2 = hb2, rs_q = q,
       rs_k = k, rs_v = v, rs_att = att, rs_logits = logits,
       rs_key_cache = key_cache, rs_value_cache = value_cache\<rparr>
   }"

section \<open>Reading the checkpoint\<close>

text \<open>
  \<^verbatim>\<open>checkpoint_init_weights\<close>, lines 133 to 163: \<open>f\<close> is the offset of the first
  tensor. Every tensor size is a product of \<^verbatim>\<open>int\<close> fields, computed in \<^verbatim>\<open>int\<close>
  from left to right before it is added to the pointer; \<open>c_mul3 a b c\<close> is
  \<^verbatim>\<open>a * b * c\<close>. The function has no result when one of the products overflows or
  the division \<^verbatim>\<open>p->dim / p->n_heads\<close> is undefined.
\<close>

definition c_mul3 :: "int \<Rightarrow> int \<Rightarrow> int \<Rightarrow> int option" where
  "c_mul3 a b c = Option.bind (c_mul a b) (\<lambda>ab. c_mul ab c)"

definition checkpoint_init_weights :: "Config \<Rightarrow> int \<Rightarrow> int \<Rightarrow> TransformerWeights option" where
  "checkpoint_init_weights p f shared_weights = do {
     let ptr = f;
     let w_token_embedding_table = ptr;
     n \<leftarrow> c_mul (vocab_size p) (dim p);
     let ptr = ptr + n;
     let w_rms_att_weight = ptr;
     n \<leftarrow> c_mul (n_layers p) (dim p);
     let ptr = ptr + n;
     let w_wq = ptr;
     n \<leftarrow> c_mul3 (n_layers p) (dim p) (dim p);
     let ptr = ptr + n;
     let w_wk = ptr;
     n \<leftarrow> c_mul3 (n_layers p) (dim p) (dim p);
     let ptr = ptr + n;
     let w_wv = ptr;
     n \<leftarrow> c_mul3 (n_layers p) (dim p) (dim p);
     let ptr = ptr + n;
     let w_wo = ptr;
     n \<leftarrow> c_mul3 (n_layers p) (dim p) (dim p);
     let ptr = ptr + n;
     let w_rms_ffn_weight = ptr;
     n \<leftarrow> c_mul (n_layers p) (dim p);
     let ptr = ptr + n;
     let w_w1 = ptr;
     n \<leftarrow> c_mul3 (n_layers p) (dim p) (hidden_dim p);
     let ptr = ptr + n;
     let w_w2 = ptr;
     n \<leftarrow> c_mul3 (n_layers p) (hidden_dim p) (dim p);
     let ptr = ptr + n;
     let w_w3 = ptr;
     n \<leftarrow> c_mul3 (n_layers p) (dim p) (hidden_dim p);
     let ptr = ptr + n;
     let w_rms_final_weight = ptr;
     let ptr = ptr + dim p;
     let w_freq_cis_real = ptr;
     head_size \<leftarrow> c_div (dim p) (n_heads p);
     n \<leftarrow> c_mul (seq_len p) head_size;
     let ptr = ptr + n sdiv 2;
     let w_freq_cis_imag = ptr;
     n \<leftarrow> c_mul (seq_len p) head_size;
     let ptr = ptr + n sdiv 2;
     let w_wcls = (if shared_weights \<noteq> 0 then w_token_embedding_table else ptr);
     Some \<lparr>token_embedding_table = w_token_embedding_table,
       rms_att_weight = w_rms_att_weight, rms_ffn_weight = w_rms_ffn_weight,
       wq = w_wq, wk = w_wk, wv = w_wv, wo = w_wo, w1 = w_w1, w2 = w_w2, w3 = w_w3,
       rms_final_weight = w_rms_final_weight,
       freq_cis_real = w_freq_cis_real, freq_cis_imag = w_freq_cis_imag,
       wcls = w_wcls\<rparr>
   }"

text \<open>
  The checkpoint file is a list of bytes, or \<open>None\<close> when \<^verbatim>\<open>fopen\<close> fails. The
  header is overlaid on the struct \<^verbatim>\<open>Config\<close>: seven 32-bit two's-complement ints in
  the byte order of the machine, taken here to be little-endian.
\<close>

definition le32 :: "8 word list \<Rightarrow> int" where
  "le32 bs = (
     let u = uint (bs ! 0) + 256 * uint (bs ! 1) + 65536 * uint (bs ! 2)
               + 16777216 * uint (bs ! 3)
     in if u < 2147483648 then u else u - 4294967296)"

text \<open>\<^verbatim>\<open>fread(&config, sizeof(Config), 1, file)\<close>, line 462: one item of 28 bytes.\<close>

definition fread_config :: "8 word list \<Rightarrow> Config option" where
  "fread_config bytes = (
     if length bytes < 28 then None
     else Some \<lparr>dim = le32 (take 4 bytes),
       hidden_dim = le32 (take 4 (drop 4 bytes)),
       n_layers = le32 (take 4 (drop 8 bytes)),
       n_heads = le32 (take 4 (drop 12 bytes)),
       n_kv_heads = le32 (take 4 (drop 16 bytes)),
       vocab_size = le32 (take 4 (drop 20 bytes)),
       seq_len = le32 (take 4 (drop 24 bytes))\<rparr>)"

text \<open>\<^verbatim>\<open>abs\<close> on \<^verbatim>\<open>int\<close>: undefined at \<^verbatim>\<open>INT_MIN\<close>.\<close>

definition c_abs :: "int \<Rightarrow> int option" where
  "c_abs a = (if a = - 2147483648 then None else Some \<bar>a\<bar>)"

text \<open>
  The mapped file seen as floats: four bytes each, a trailing group of fewer than four
  bytes is no float. The decoding of four bytes as an IEEE float is the parameter
  \<open>f32\<close>.
\<close>

fun floats_of :: "(8 word list \<Rightarrow> float) \<Rightarrow> 8 word list \<Rightarrow> float list" where
  "floats_of f32 (a # b # c # d # rest) = f32 [a, b, c, d] # floats_of f32 rest"
| "floats_of f32 rest = []"

text \<open>
  The first block of \<^verbatim>\<open>main\<close>, lines 455 to 482. What the operating system
  answers is given by the arguments: \<open>file\<close> is the content of the checkpoint
  file, or \<open>None\<close> when \<^verbatim>\<open>fopen\<close> fails; \<open>fd\<close> is the value returned by
  \<^verbatim>\<open>open\<close>; \<open>data_mapped\<close> and \<open>ddata_mapped\<close> say whether the two calls of
  \<^verbatim>\<open>mmap\<close> succeed. The four errors are the five \<^verbatim>\<open>return 1\<close> of lines 459, 462,
  472, 474 and 476; \<open>Undefined\<close> stands for undefined behaviour (\<^verbatim>\<open>abs(INT_MIN)\<close>,
  and an overflow or an undefined division in \<^verbatim>\<open>checkpoint_init_weights\<close>). The calls
  \<^verbatim>\<open>fseek\<close> and \<^verbatim>\<open>ftell\<close> are taken to succeed. The second call of
  \<^verbatim>\<open>checkpoint_init_weights\<close>, for \<^verbatim>\<open>dweights\<close>, computes the same products once
  more, over the zeroed mapping of the training path; it is left out.
\<close>

datatype load_error = OpenFailed | HeaderReadFailed | FdOpenFailed | MmapFailed | Undefined

record Checkpoint =
  ck_config :: Config
  ck_shared_weights :: int
  ck_file_size :: int
  ck_data :: "float list"
  ck_weights :: TransformerWeights

definition load_checkpoint ::
  "(8 word list \<Rightarrow> float) \<Rightarrow> 8 word list option \<Rightarrow> int \<Rightarrow> bool \<Rightarrow> bool
     \<Rightarrow> load_error + Checkpoint" where
  "load_checkpoint f32 file fd data_mapped ddata_mapped = (
     case file of
       None \<Rightarrow> Inl OpenFailed
     | Some bytes \<Rightarrow> (
         case fread_config bytes of
           None \<Rightarrow> Inl HeaderReadFailed
         | Some config \<Rightarrow> (
             let shared_weights = (if vocab_size config > 0 then 1 else 0) in
             case c_abs (vocab_size config) of
               None \<Rightarrow> Inl Undefined
             | Some a \<Rightarrow> (
                 let config = config\<lparr>vocab_size := a\<rparr>;
                     file_size = int (length bytes)
                 in if fd = - 1 then Inl FdOpenFailed
                    else if \<not> data_mapped then Inl MmapFailed
                    else if \<not> ddata_mapped then Inl MmapFailed
                    else (
                      let data = floats_of f32 (drop 28 bytes)
                      in case checkpoint_init_weights config 0 shared_weights of
                           None \<Rightarrow> Inl Undefined
                         | Some weights \<Rightarrow>
                             Inr \<lparr>ck_config = config, ck_shared_weights = shared_weights,
                               ck_file_size = file_size, ck_data = data,
                               ck_weights = weights\<rparr>)))))"

text \<open>Line 484.\<close>

definition clamp_steps :: "int \<Rightarrow> Config \<Rightarrow> int" where
  "clamp_steps steps config =
     (if steps \<le> 0 \<or> steps > seq_len config then seq_len config else steps)"

section \<open>Neural net blocks\<close>

text \<open>
  \<^verbatim>\<open>memcpy(dst + doff, src + soff, n * sizeof(float))\<close> between two different
  buffers. A negative \<open>n\<close> converts to a huge \<^verbatim>\<open>size_t\<close>.
\<close>

definition memcpy :: "float list \<Rightarrow> int \<Rightarrow> float list \<Rightarrow> int \<Rightarrow> int \<Rightarrow> float list option" where
  "memcpy dst doff src soff n = (
     if n < 0 then None
     else for_loop 0 n (\<lambda>i dst. do {
         a \<leftarrow> rd src (soff + i);
         wr dst (doff + i) a
       }) dst)"

text \<open>\<^verbatim>\<open>accum\<close>, lines 168 to 172.\<close>

definition accum :: "float list \<Rightarrow> float list \<Rightarrow> int \<Rightarrow> float list option" where
  "accum a b sz = for_loop 0 sz (\<lambda>i a. do {
       ai \<leftarrow> rd a i;
       bi \<leftarrow> rd b i;
       wr a i (ai + bi)
     }) a"

text \<open>
  \<^verbatim>\<open>rmsnorm\<close>, lines 174 to 187; \<^verbatim>\<open>weight\<close> points into the checkpoint. The call of
  line 341 passes the same buffer as \<^verbatim>\<open>o\<close> and \<^verbatim>\<open>x\<close>: the second loop reads
  \<^verbatim>\<open>x[j]\<close> before it writes \<^verbatim>\<open>o[j]\<close> and reads no other cell, so reading from the
  buffer as it was on entry gives the same values.
\<close>

definition rmsnorm :: "float list \<Rightarrow> float list \<Rightarrow> float list \<Rightarrow> int \<Rightarrow> int \<Rightarrow> float list option" where
  "rmsnorm out xin wbuf weight sz = do {
     ss \<leftarrow> for_loop 0 sz (\<lambda>j ss. do {
         xj \<leftarrow> rd xin j;
         Some (ss + xj * xj)
       }) 0;
     let ss = ss / real_of_int sz;
     let ss = ss + 1 / 100000;
     let ss = 1 / sqrt ss;
     for_loop 0 sz (\<lambda>j out. do {
         wj \<leftarrow> rd wbuf (weight + j);
         xj \<leftarrow> rd xin j;
         wr out j (wj * (ss * xj))
       }) out
   }"

text \<open>\<^verbatim>\<open>softmax(x + off, size)\<close>, lines 189 to 207, in place on the buffer \<open>buf\<close>.\<close>

definition softmax :: "float list \<Rightarrow> int \<Rightarrow> int \<Rightarrow> float list option" where
  "softmax buf off sz = do {
     m0 \<leftarrow> rd buf (off + 0);
     max_val \<leftarrow> for_loop 1 sz (\<lambda>i max_val. do {
         xi \<leftarrow> rd buf (off + i);
         Some (if xi > max_val then xi else max_val)
       }) m0;
     (buf, total) \<leftarrow> for_loop 0 sz (\<lambda>i (buf, total). do {
         xi \<leftarrow> rd buf (off + i);
         buf \<leftarrow> wr buf (off + i) (exp (xi - max_val));
         xi \<leftarrow> rd buf (off + i);
         Some (buf, total + xi)
       }) (buf, 0);
     for_loop 0 sz (\<lambda>i buf. do {
         xi \<leftarrow> rd buf (off + i);
         wr buf (off + i) (xi / total)
       }) buf
   }"

text \<open>
  \<^verbatim>\<open>matmul\<close>, lines 209 to 219; \<^verbatim>\<open>w\<close> points into the checkpoint at offset
  \<open>woff\<close>. The rows are computed one after the other.
\<close>

definition matmul :: "float list \<Rightarrow> float list \<Rightarrow> float list \<Rightarrow> int \<Rightarrow> int \<Rightarrow> int \<Rightarrow> float list option" where
  "matmul xout xin wbuf woff n d = for_loop 0 d (\<lambda>i xout. do {
       val \<leftarrow> for_loop 0 n (\<lambda>j val. do {
           wij \<leftarrow> rd wbuf (woff + (i * n + j));
           xj \<leftarrow> rd xin j;
           Some (val + wij * xj)
         }) 0;
       wr xout i val
     }) xout"

section \<open>The forward pass\<close>

text \<open>
  The body of the layer loop of \<^verbatim>\<open>transformer\<close>, lines 238 to 338, is cut into seven
  stages, each a function on the run state. \<open>head_size\<close>, \<open>freq_cis_real_row\<close>
  and \<open>freq_cis_imag_row\<close> are the locals of lines 227, 234 and 235.

  Lines 240 and 241: the attention rmsnorm.
\<close>

definition att_norm :: "Config \<Rightarrow> float list \<Rightarrow> TransformerWeights \<Rightarrow> int \<Rightarrow> RunState \<Rightarrow> RunState option" where
  "att_norm p wbuf w l s = do {
     xb \<leftarrow> rmsnorm (rs_xb s) (rs_x s) wbuf (rms_att_weight w + l * dim p) (dim p);
     Some (s\<lparr>rs_xb := xb\<rparr>)
   }"

text \<open>Lines 243 to 246: the three projections of \<^verbatim>\<open>xb\<close>.\<close>

definition qkv :: "Config \<Rightarrow> float list \<Rightarrow> TransformerWeights \<Rightarrow> int \<Rightarrow> RunState \<Rightarrow> RunState option" where
  "qkv p wbuf w l s = do {
     q \<leftarrow> matmul (rs_q s) (rs_xb s) wbuf (wq w + l * dim p * dim p) (dim p) (dim p);
     let s = s\<lparr>rs_q := q\<rparr>;
     k \<leftarrow> matmul (rs_k s) (rs_xb s) wbuf (wk w + l * dim p * dim p) (dim p) (dim p);
     let s = s\<lparr>rs_k := k\<rparr>;
     v \<leftarrow> matmul (rs_v s) (rs_xb s) wbuf (wv w + l * dim p * dim p) (dim p) (dim p);
     Some (s\<lparr>rs_v := v\<rparr>)
   }"

text \<open>Lines 248 to 266: the rotation of \<^verbatim>\<open>q\<close> and \<^verbatim>\<open>k\<close>, head by head.\<close>

definition rope :: "Config \<Rightarrow> float list \<Rightarrow> int \<Rightarrow> int \<Rightarrow> int \<Rightarrow> RunState \<Rightarrow> RunState option" where
  "rope p wbuf head_size freq_cis_real_row freq_cis_imag_row s = do {
     (q, k) \<leftarrow> for_loop 0 (n_heads p) (\<lambda>h.
         for_loop2 0 head_size (\<lambda>i (q, k). do {
           q0 \<leftarrow> rd q (h * head_size + i);
           q1 \<leftarrow> rd q (h * head_size + (i + 1));
           k0 \<leftarrow> rd k (h * head_size + i);
           k1 \<leftarrow> rd k (h * head_size + (i + 1));
           fcr \<leftarrow> rd wbuf (freq_cis_real_row + i sdiv 2);
           fci \<leftarrow> rd wbuf (freq_cis_imag_row + i sdiv 2);
           q \<leftarrow> wr q (h * head_size + i) (q0 * fcr - q1 * fci);
           q \<leftarrow> wr q (h * head_size + (i + 1)) (q0 * fci + q1 * fcr);
           k \<leftarrow> wr k (h * head_size + i) (k0 * fcr - k1 * fci);
           k \<leftarrow> wr k (h * head_size + (i + 1)) (k0 * fci + k1 * fcr);
           Some (q, k)
         })) (rs_q s, rs_k s);
     Some (s\<lparr>rs_q := q, rs_k := k\<rparr>)
   }"

text \<open>Lines 268 to 273: the key and the value of this position go into the cache.\<close>

definition save_kv :: "Config \<Rightarrow> int \<Rightarrow> int \<Rightarrow> RunState \<Rightarrow> RunState option" where
  "save_kv p pos l s = do {
     let loff = l * seq_len p * dim p;
     key_cache \<leftarrow> memcpy (rs_key_cache s) (loff + pos * dim p) (rs_k s) 0 (dim p);
     value_cache \<leftarrow> memcpy (rs_value_cache s) (loff + pos * dim p) (rs_v s) 0 (dim p);
     Some (s\<lparr>rs_key_cache := key_cache, rs_value_cache := value_cache\<rparr>)
   }"

text \<open>
  Lines 275 to 307: multihead attention. \<^verbatim>\<open>t <= pos\<close> is \<open>t < pos + 1\<close>. The
  heads are run one after the other.
\<close>

definition attention :: "Config \<Rightarrow> int \<Rightarrow> int \<Rightarrow> int \<Rightarrow> RunState \<Rightarrow> RunState option" where
  "attention p head_size pos l s = do {
     let loff = l * seq_len p * dim p;
     (att, xb) \<leftarrow> for_loop 0 (n_heads p) (\<lambda>h (att, xb). do {
         att \<leftarrow> for_loop 0 (pos + 1) (\<lambda>t att. do {
             score \<leftarrow> for_loop 0 head_size (\<lambda>i score. do {
                 qi \<leftarrow> rd (rs_q s) (h * head_size + i);
                 ki \<leftarrow> rd (rs_key_cache s) (loff + t * dim p + h * head_size + i);
                 Some (score + qi * ki)
               }) 0;
             let score = score / sqrt (real_of_int head_size);
             wr att (h * seq_len p + t) score
           }) att;
         att \<leftarrow> softmax att (h * seq_len p) (pos + 1);
         xb \<leftarrow> for_loop 0 head_size (\<lambda>i xb. do {
             val \<leftarrow> for_loop 0 (pos + 1) (\<lambda>t val. do {
                 a \<leftarrow> rd att (h * seq_len p + t);
                 c \<leftarrow> rd (rs_value_cache s) (loff + t * dim p + h * head_size + i);
                 Some (val + a * c)
               }) 0;
             wr xb (h * head_size + i) val
           }) xb;
         Some (att, xb)
       }) (rs_att s, rs_xb s);
     Some (s\<lparr>rs_att := att, rs_xb := xb\<rparr>)
   }"

text \<open>Lines 309 to 313: the output projection and the residual connection.\<close>

definition attn_out :: "Config \<Rightarrow> float list \<Rightarrow> TransformerWeights \<Rightarrow> int \<Rightarrow> RunState \<Rightarrow> RunState option" where
  "attn_out p wbuf w l s = do {
     xb2 \<leftarrow> matmul (rs_xb2 s) (rs_xb s) wbuf (wo w + l * dim p * dim p) (dim p) (dim p);
     let s = s\<lparr>rs_xb2 := xb2\<rparr>;
     x \<leftarrow> accum (rs_x s) (rs_xb2 s) (dim p);
     Some (s\<lparr>rs_x := x\<rparr>)
   }"

text \<open>Lines 315 to 337: the feed-forward block.\<close>

definition ffn :: "Config \<Rightarrow> float list \<Rightarrow> TransformerWeights \<Rightarrow> int \<Rightarrow> RunState \<Rightarrow> RunState option" where
  "ffn p wbuf w l s = do {
     xb \<leftarrow> rmsnorm (rs_xb s) (rs_x s) wbuf (rms_ffn_weight w + l * dim p) (dim p);
     let s = s\<lparr>rs_xb := xb\<rparr>;
     hb \<leftarrow> matmul (rs_hb s) (rs_xb s) wbuf (w1 w + l * dim p * hidden_dim p) (dim p) (hidden_dim p);
     let s = s\<lparr>rs_hb := hb\<rparr>;
     hb2 \<leftarrow> matmul (rs_hb2 s) (rs_xb s) wbuf (w3 w + l * dim p * hidden_dim p) (dim p) (hidden_dim p);
     let s = s\<lparr>rs_hb2 := hb2\<rparr>;
     hb \<leftarrow> for_loop 0 (hidden_dim p) (\<lambda>i hb. do {
         a \<leftarrow> rd hb i;
         wr hb i (a * (1 / (1 + exp (- a))))
       }) (rs_hb s);
     hb \<leftarrow> for_loop 0 (hidden_dim p) (\<lambda>i hb. do {
         a \<leftarrow> rd hb i;
         b \<leftarrow> rd (rs_hb2 s) i;
         wr hb i (a * b)
       }) hb;
     let s = s\<lparr>rs_hb := hb\<rparr>;
     xb \<leftarrow> matmul (rs_xb s) (rs_hb s) wbuf (w2 w + l * dim p * hidden_dim p) (hidden_dim p) (dim p);
     let s = s\<lparr>rs_xb := xb\<rparr>;
     x \<leftarrow> accum (rs_x s) (rs_xb s) (dim p);
     Some (s\<lparr>rs_x := x\<rparr>)
   }"

text \<open>One iteration of the layer loop.\<close>

definition layer ::
  "int \<Rightarrow> Config \<Rightarrow> float list \<Rightarrow> TransformerWeights \<Rightarrow> int \<Rightarrow> int \<Rightarrow> int \<Rightarrow> int \<Rightarrow> RunState \<Rightarrow> RunState option" where
  "layer pos p wbuf w head_size freq_cis_real_row freq_cis_imag_row l s = do {
     s \<leftarrow> att_norm p wbuf w l s;
     s \<leftarrow> qkv p wbuf w l s;
     s \<leftarrow> rope p wbuf head_size freq_cis_real_row freq_cis_imag_row s;
     s \<leftarrow> save_kv p pos l s;
     s \<leftarrow> attention p head_size pos l s;
     s \<leftarrow> attn_out p wbuf w l s;
     ffn p wbuf w l s
   }"

text \<open>
  \<^verbatim>\<open>transformer\<close>, lines 221 to 345. The weights are the offsets \<open>w\<close> and the
  mapped floats \<open>wbuf\<close>.
\<close>

definition transformer ::
  "int \<Rightarrow> int \<Rightarrow> Config \<Rightarrow> RunState \<Rightarrow> float list \<Rightarrow> TransformerWeights \<Rightarrow> RunState option" where
  "transformer token pos p s wbuf w = do {
     head_size \<leftarrow> c_div (dim p) (n_heads p);
     x \<leftarrow> memcpy (rs_x s) 0 wbuf (token_embedding_table w + token * dim p) (dim p);
     let s = s\<lparr>rs_x := x\<rparr>;
     let freq_cis_real_row = freq_cis_real w + (pos * head_size) sdiv 2;
     let freq_cis_imag_row = freq_cis_imag w + (pos * head_size) sdiv 2;
     s \<leftarrow> for_loop 0 (n_layers p)
            (layer pos p wbuf w head_size freq_cis_real_row freq_cis_imag_row) s;
     x \<leftarrow> rmsnorm (rs_x s) (rs_x s) wbuf (rms_final_weight w) (dim p);
     let s = s\<lparr>rs_x := x\<rparr>;
     logits \<leftarrow> matmul (rs_logits s) (rs_x s) wbuf (wcls w) (dim p) (vocab_size p);
     Some (s\<lparr>rs_logits := logits\<rparr>)
   }"


section \<open>The sampler\<close>

text \<open>
  \<^verbatim>\<open>sample\<close>, lines 347 to 358. The value returned by \<^verbatim>\<open>rand()\<close> and the constant
  \<^verbatim>\<open>RAND_MAX\<close> belong to the C library and are parameters \<open>rnd\<close> and \<open>rand_max\<close>;
  \<open>rand_unit\<close> is line 349, \<^verbatim>\<open>(float)rand() / (float)RAND_MAX\<close>.
  The early \<^verbatim>\<open>return i\<close> is the component \<open>Some i\<close> of the loop state: once it is
  set the remaining iterations do nothing.
\<close>

definition rand_unit :: "int \<Rightarrow> int \<Rightarrow> float" where
  "rand_unit rnd rand_max = real_of_int rnd / real_of_int rand_max"

definition sample :: "int \<Rightarrow> int \<Rightarrow> float list \<Rightarrow> int \<Rightarrow> int option" where
  "sample rnd rand_max probabilities n = (
     let r = rand_unit rnd rand_max in do {
       (cdf, ret) \<leftarrow> for_loop 0 n (\<lambda>i (cdf, ret).
           case ret of
             Some _ \<Rightarrow> Some (cdf, ret)
           | None \<Rightarrow> do {
               p_i \<leftarrow> rd probabilities i;
               let cdf = cdf + p_i;
               Some (cdf, if r < cdf then Some i else None)
             }) (0, None);
       Some (case ret of Some i \<Rightarrow> i | None \<Rightarrow> n - 1)
     })"

text \<open>\<^verbatim>\<open>argmax\<close>, lines 361 to 372.\<close>

definition argmax :: "float list \<Rightarrow> int \<Rightarrow> int option" where
  "argmax v n = do {
     v0 \<leftarrow> rd v 0;
     (max_i, max_p) \<leftarrow> for_loop 1 n (\<lambda>i (max_i, max_p). do {
         vi \<leftarrow> rd v i;
         Some (if vi > max_p then (i, vi) else (max_i, max_p))
       }) (0, v0);
     Some max_i
   }"

text \<open>
  The sampling step of the generation loop, lines 640 to 650: from the logits to the
  next token. It returns the logits buffer too, which the stochastic branch overwrites
  with the probabilities.
\<close>

definition sample_next :: "float \<Rightarrow> int \<Rightarrow> int \<Rightarrow> float list \<Rightarrow> int \<Rightarrow> (float list \<times> int) option" where
  "sample_next temperature rnd rand_max logits n = (
     if temperature = 0 then do {
       next \<leftarrow> argmax logits n;
       Some (logits, next)
     } else do {
       logits \<leftarrow> for_loop 0 n (\<lambda>q logits. do {
           lq \<leftarrow> rd logits q;
           wr logits q (lq / temperature)
         }) logits;
       logits \<leftarrow> softmax logits 0 n;
       next \<leftarrow> sample rnd rand_max logits n;
       Some (logits, next)
     })"

section \<open>The generation loop\<close>

text \<open>
  The state of the loop of lines 635 to 657: the locals \<^verbatim>\<open>token\<close> and \<^verbatim>\<open>pos\<close>, the
  run state, the number of calls of \<^verbatim>\<open>rand()\<close> made so far, and the strings printed
  so far. \<open>rnd k\<close> is the value of the \<open>k\<close>-th call of \<^verbatim>\<open>rand()\<close> after
  \<^verbatim>\<open>srand(1337)\<close>; \<open>vocab\<close> is the table read from the tokenizer file.
\<close>

record GenState =
  gs_token :: int
  gs_pos :: int
  gs_state :: RunState
  gs_rand :: nat
  gs_out :: "string list"

text \<open>The body of the loop.\<close>

definition gen_step ::
  "float \<Rightarrow> (nat \<Rightarrow> int) \<Rightarrow> int \<Rightarrow> Config \<Rightarrow> float list \<Rightarrow> TransformerWeights \<Rightarrow> string list
     \<Rightarrow> GenState \<Rightarrow> GenState option" where
  "gen_step temperature rnd rand_max config wbuf weights vocab g = do {
     state \<leftarrow> transformer (gs_token g) (gs_pos g) config (gs_state g) wbuf weights;
     (logits, next) \<leftarrow> sample_next temperature (rnd (gs_rand g)) rand_max
                        (rs_logits state) (vocab_size config);
     piece \<leftarrow> rd vocab next;
     Some \<lparr>gs_token = next, gs_pos = gs_pos g + 1,
       gs_state = state\<lparr>rs_logits := logits\<rparr>,
       gs_rand = (if temperature = 0 then gs_rand g else gs_rand g + 1),
       gs_out = gs_out g @ [piece]\<rparr>
   }"




text \<open>
  The states of the generation at the head of the loop of line 635, for the clamped
  step count \<open>steps\<close>: the state after the allocation, and the state after the body
  from every state in which the loop condition holds.
\<close>

inductive loop_head ::
  "float \<Rightarrow> (nat \<Rightarrow> int) \<Rightarrow> int \<Rightarrow> Config \<Rightarrow> float list \<Rightarrow> TransformerWeights \<Rightarrow> string list
     \<Rightarrow> int \<Rightarrow> GenState \<Rightarrow> bool"
  for temperature rnd rand_max config wbuf weights vocab steps where
    start: "malloc_run_state config = Some state \<Longrightarrow>
      loop_head temperature rnd rand_max config wbuf weights vocab steps
        \<lparr>gs_token = 1, gs_pos = 0, gs_state = state, gs_rand = 0, gs_out = []\<rparr>"
  | step: "loop_head temperature rnd rand_max config wbuf weights vocab steps g \<Longrightarrow>
      gs_pos g < steps \<Longrightarrow>
      gen_step temperature rnd rand_max config wbuf weights vocab g = Some g' \<Longrightarrow>
      loop_head temperature rnd rand_max config wbuf weights vocab steps g'"


section \<open>Well-formed configurations and buffers\<close>

text \<open>
  The configurations the theorems below speak about: the fields the program uses
  are positive, the head size is even (the rotation takes the elements of a head in
  pairs), and the products the program computes in \<^verbatim>\<open>int\<close> fit into 32 bits, so that
  the unbounded integers of the model agree with the machine's.
\<close>

definition head_size_of :: "Config \<Rightarrow> int" where
  "head_size_of p = dim p sdiv n_heads p"

definition config_ok :: "Config \<Rightarrow> bool" where
  "config_ok p \<longleftrightarrow>
     0 < dim p \<and> 0 < hidden_dim p \<and> 0 < n_layers p \<and> 0 < n_heads p
     \<and> 0 < vocab_size p \<and> 0 < seq_len p
     \<and> even (head_size_of p)
     \<and> vocab_size p * dim p \<le> 2147483647
     \<and> n_layers p * dim p * dim p \<le> 2147483647
     \<and> n_layers p * dim p * hidden_dim p \<le> 2147483647
     \<and> n_layers p * seq_len p * dim p \<le> 2147483647
     \<and> n_heads p * seq_len p \<le> 2147483647
     \<and> seq_len p * head_size_of p \<le> 2147483647"

text \<open>The buffers of the run state have the sizes \<^verbatim>\<open>malloc_run_state\<close> gives them.\<close>

definition state_ok :: "Config \<Rightarrow> RunState \<Rightarrow> bool" where
  "state_ok p s \<longleftrightarrow>
     int (length (rs_x s)) = dim p \<and> int (length (rs_xb s)) = dim p
     \<and> int (length (rs_xb2 s)) = dim p
     \<and> int (length (rs_hb s)) = hidden_dim p \<and> int (length (rs_hb2 s)) = hidden_dim p
     \<and> int (length (rs_q s)) = dim p \<and> int (length (rs_k s)) = dim p
     \<and> int (length (rs_v s)) = dim p
     \<and> int (length (rs_att s)) = n_heads p * seq_len p
     \<and> int (length (rs_logits s)) = vocab_size p
     \<and> int (length (rs_key_cache s)) = n_layers p * seq_len p * dim p
     \<and> int (length (rs_value_cache s)) = n_layers p * seq_len p * dim p"

text \<open>
  Every tensor the weight pointers name lies inside the mapped floats \<open>wbuf\<close>. The
  token embedding table is left out: what \<^verbatim>\<open>transformer\<close> needs of it is the row it
  reads, see \<open>row_ok\<close>.
\<close>

definition weights_ok :: "Config \<Rightarrow> TransformerWeights \<Rightarrow> float list \<Rightarrow> bool" where
  "weights_ok p w wbuf \<longleftrightarrow>
     0 \<le> rms_att_weight w \<and> rms_att_weight w + n_layers p * dim p \<le> int (length wbuf)
     \<and> 0 \<le> wq w \<and> wq w + n_layers p * dim p * dim p \<le> int (length wbuf)
     \<and> 0 \<le> wk w \<and> wk w + n_layers p * dim p * dim p \<le> int (length wbuf)
     \<and> 0 \<le> wv w \<and> wv w + n_layers p * dim p * dim p \<le> int (length wbuf)
     \<and> 0 \<le> wo w \<and> wo w + n_layers p * dim p * dim p \<le> int (length wbuf)
     \<and> 0 \<le> rms_ffn_weight w \<and> rms_ffn_weight w + n_layers p * dim p \<le> int (length wbuf)
     \<and> 0 \<le> w1 w \<and> w1 w + n_layers p * dim p * hidden_dim p \<le> int (length wbuf)
     \<and> 0 \<le> w2 w \<and> w2 w + n_layers p * dim p * hidden_dim p \<le> int (length wbuf)
     \<and> 0 \<le> w3 w \<and> w3 w + n_layers p * dim p * hidden_dim p \<le> int (length wbuf)
     \<and> 0 \<le> rms_final_weight w \<and> rms_final_weight w + dim p \<le> int (length wbuf)
     \<and> 0 \<le> freq_cis_real w
     \<and> freq_cis_real w + (seq_len p * head_size_of p) sdiv 2 \<le> int (length wbuf)
     \<and> 0 \<le> freq_cis_imag w
     \<and> freq_cis_imag w + (seq_len p * head_size_of p) sdiv 2 \<le> int (length wbuf)
     \<and> 0 \<le> wcls w \<and> wcls w + vocab_size p * dim p \<le> int (length wbuf)"

text \<open>
  The product \<^verbatim>\<open>token * dim\<close> of line 230 fits an \<^verbatim>\<open>int\<close>, and the row
  \<^verbatim>\<open>token * dim\<close> of the embedding table lies inside the mapped floats.
\<close>

definition row_ok :: "Config \<Rightarrow> TransformerWeights \<Rightarrow> float list \<Rightarrow> int \<Rightarrow> bool" where
  "row_ok p w wbuf token \<longleftrightarrow>
     c_int token \<and> c_int (token * dim p)
     \<and> 0 \<le> token_embedding_table w + token * dim p
     \<and> token_embedding_table w + token * dim p + dim p \<le> int (length wbuf)"

text \<open>
  The number of floats the tensors of a checkpoint take, in the order of
  \<^verbatim>\<open>checkpoint_init_weights\<close>; the classifier counts only when it is not shared.
\<close>

definition weights_size :: "Config \<Rightarrow> int \<Rightarrow> int" where
  "weights_size p shared_weights =
     vocab_size p * dim p + n_layers p * dim p + 4 * (n_layers p * dim p * dim p)
     + n_layers p * dim p + 3 * (n_layers p * dim p * hidden_dim p) + dim p
     + 2 * ((seq_len p * head_size_of p) sdiv 2)
     + (if shared_weights \<noteq> 0 then 0 else vocab_size p * dim p)"

text \<open>
  The cells of the cache slot of layer \<open>l\<close> and position \<open>pos\<close>:
  \<^verbatim>\<open>cache + l * seq_len * dim + pos * dim\<close>, \<^verbatim>\<open>dim\<close> floats.
\<close>

definition in_slot :: "Config \<Rightarrow> int \<Rightarrow> int \<Rightarrow> int \<Rightarrow> bool" where
  "in_slot p l pos i \<longleftrightarrow>
     l * seq_len p * dim p + pos * dim p \<le> i
     \<and> i < l * seq_len p * dim p + pos * dim p + dim p"


text \<open>
  The cells of \<^verbatim>\<open>att\<close> that a forward pass at position \<open>pos\<close> writes: the scores
  \<^verbatim>\<open>att[h * seq_len + t]\<close> of every head \<open>h\<close> for the timesteps \<open>t \<le> pos\<close>,
  lines 281 to 297.
\<close>

definition att_written :: "Config \<Rightarrow> int \<Rightarrow> int \<Rightarrow> bool" where
  "att_written p pos i \<longleftrightarrow> 0 \<le> i \<and> i < n_heads p * seq_len p \<and> i mod seq_len p \<le> pos"

section \<open>The matrix-vector product of the specification\<close>

text \<open>
  Section 4.2 of the specification: a matrix \<open>W\<close> of shape \<open>(out_dim, in_dim)\<close>
  is stored row-major, and \<open>y = W x\<close> is \<open>y_i = \<Sum>_j W[i,j] x_j\<close>. Here the
  matrix starts at \<open>woff\<close> in \<open>wbuf\<close>, with \<open>d\<close> rows and \<open>n\<close> columns.
\<close>

definition matvec :: "float list \<Rightarrow> int \<Rightarrow> int \<Rightarrow> int \<Rightarrow> float list \<Rightarrow> float list" where
  "matvec wbuf woff d n xin =
     map (\<lambda>i. \<Sum>j = 0..<nat n. wbuf ! nat (woff + (int i * n + int j)) * xin ! j) [0..<nat d]"

text \<open>
  The cumulative sum of section 4.5: the sum of the probabilities at the indices
  \<open>0, \<dots>, i\<close>.
\<close>

definition cumsum :: "float list \<Rightarrow> int \<Rightarrow> float" where
  "cumsum ps i = (\<Sum>j = 0..<nat (i + 1). ps ! j)"

section \<open>A small configuration\<close>

text \<open>
  A configuration with one layer, one head, two tokens and two positions, used for the
  concrete runs below. Its tensors take 42 floats when the classifier is shared;
  \<open>toy_weights\<close> are the pointers \<^verbatim>\<open>checkpoint_init_weights\<close> gives, \<open>toy_header\<close>
  is the header of its checkpoint file, \<open>toy_header_untied\<close> the same header with
  the vocabulary size \<open>-2\<close>, and \<open>toy_zero_state\<close> the run state after
  \<^verbatim>\<open>malloc_run_state\<close>.
\<close>

definition toy_config :: Config where
  "toy_config = \<lparr>dim = 2, hidden_dim = 2, n_layers = 1, n_heads = 1, n_kv_heads = 1,
     vocab_size = 2, seq_len = 2\<rparr>"

definition toy_weights :: TransformerWeights where
  "toy_weights = \<lparr>token_embedding_table = 0, rms_att_weight = 4, rms_ffn_weight = 22,
     wq = 6, wk = 10, wv = 14, wo = 18, w1 = 24, w2 = 28, w3 = 32,
     rms_final_weight = 36, freq_cis_real = 38, freq_cis_imag = 40, wcls = 0\<rparr>"

definition toy_header :: "8 word list" where
  "toy_header = [2, 0, 0, 0,  2, 0, 0, 0,  1, 0, 0, 0,  1, 0, 0, 0,  1, 0, 0, 0,
     2, 0, 0, 0,  2, 0, 0, 0]"

definition toy_header_untied :: "8 word list" where
  "toy_header_untied = [2, 0, 0, 0,  2, 0, 0, 0,  1, 0, 0, 0,  1, 0, 0, 0,  1, 0, 0, 0,
     254, 255, 255, 255,  2, 0, 0, 0]"

text \<open>
  A checkpoint body for the small configuration: \<^verbatim>\<open>wq\<close> is the identity matrix,
  \<^verbatim>\<open>wk\<close> twice and \<^verbatim>\<open>wv\<close> three times the identity, every other float is 0.
\<close>

definition toy_wbuf :: "float list" where
  "toy_wbuf = replicate 6 0 @ [1, 0, 0, 1] @ [2, 0, 0, 2] @ [3, 0, 0, 3] @ replicate 24 0"


definition toy_zero_state :: RunState where
  "toy_zero_state = \<lparr>rs_x = [0, 0], rs_xb = [0, 0], rs_xb2 = [0, 0], rs_hb = [0, 0],
     rs_hb2 = [0, 0], rs_q = [0, 0], rs_k = [0, 0], rs_v = [0, 0], rs_att = [0, 0],
     rs_logits = [0, 0], rs_key_cache = [0, 0, 0, 0], rs_value_cache = [0, 0, 0, 0]\<rparr>"

section \<open>Loop rules\<close>

lemma for_loop_rule:
  assumes "I i s" and "i \<le> n"
    and "\<And>j t. i \<le> j \<Longrightarrow> j < n \<Longrightarrow> I j t \<Longrightarrow> \<exists>t'. body j t = Some t' \<and> I (j + 1) t'"
  shows "\<exists>s'. for_loop i n body s = Some s' \<and> I n s'"
  using assms
proof (induction i n body s rule: for_loop.induct)
  case (1 i n body s)
  show ?case
  proof (cases "i < n")
    case True
    from "1.prems"(3)[of i s] True "1.prems"(1)
    obtain t where t: "body i s = Some t" "I (i + 1) t" by auto
    have "\<exists>s'. for_loop (i + 1) n body t = Some s' \<and> I n s'"
    proof (rule "1.IH"[OF True t(1) t(2)])
      show "i + 1 \<le> n" using True by simp
    next
      fix j u assume "i + 1 \<le> j" "j < n" "I j u"
      then show "\<exists>t'. body j u = Some t' \<and> I (j + 1) t'"
        using "1.prems"(3)[of j u] by simp
    qed
    then show ?thesis
      using True t(1) by (subst for_loop.simps) simp
  next
    case False
    with "1.prems" have "i = n" by simp
    then show ?thesis
      using "1.prems"(1) by (subst for_loop.simps) simp
  qed
qed

lemma for_loop_partial:
  assumes "for_loop i n body s = Some s'" and "I s"
    and "\<And>j t t'. i \<le> j \<Longrightarrow> j < n \<Longrightarrow> I t \<Longrightarrow> body j t = Some t' \<Longrightarrow> I t'"
  shows "I s'"
  using assms
proof (induction i n body s rule: for_loop.induct)
  case (1 i n body s)
  show ?case
  proof (cases "i < n")
    case True
    from "1.prems"(1) True obtain t where t: "body i s = Some t"
      and r: "for_loop (i + 1) n body t = Some s'"
      by (subst (asm) for_loop.simps) (auto simp: Option.bind_eq_Some_conv)
    have It: "I t" using "1.prems"(3)[of i s t] True "1.prems"(2) t by simp
    show ?thesis
    proof (rule "1.IH"[OF True t r It])
      fix j u u' assume "i + 1 \<le> j" "j < n" "I u" "body j u = Some u'"
      then show "I u'" using "1.prems"(3)[of j u u'] by simp
    qed
  next
    case False
    then show ?thesis
      using "1.prems"(1,2) by (subst (asm) for_loop.simps) simp
  qed
qed

lemma bind_SomeE:
  assumes "Option.bind m f = Some y"
  obtains x where "m = Some x" "f x = Some y"
  using assms by (auto simp: Option.bind_eq_Some_conv)



lemma rd_Some: "0 \<le> i \<Longrightarrow> i < int (length buf) \<Longrightarrow> rd buf i = Some (buf ! nat i)"
  by (simp add: rd_def)

lemma wr_Some: "0 \<le> i \<Longrightarrow> i < int (length buf) \<Longrightarrow> wr buf i a = Some (buf[nat i := a])"
  by (simp add: wr_def)

lemma argmax_ok:
  assumes "1 \<le> n" and "n \<le> int (length v)"
  shows "\<exists>i. argmax v n = Some i \<and> 0 \<le> i \<and> i < n
           \<and> (\<forall>j. 0 \<le> j \<and> j < n \<longrightarrow> v ! nat j \<le> v ! nat i)
           \<and> (\<forall>j. 0 \<le> j \<and> j < i \<longrightarrow> v ! nat j < v ! nat i)"
proof -
  define I where "I = (\<lambda>(j::int) (mi::int, mp::real).
      0 \<le> mi \<and> mi < j \<and> mp = v ! nat mi
      \<and> (\<forall>k. 0 \<le> k \<and> k < j \<longrightarrow> v ! nat k \<le> mp)
      \<and> (\<forall>k. 0 \<le> k \<and> k < mi \<longrightarrow> v ! nat k < mp))"
  define body where "body = (\<lambda>(i::int) (max_i::int, max_p::real). do {
         vi \<leftarrow> rd v i;
         Some (if vi > max_p then (i, vi) else (max_i, max_p))
       })"
  have v0: "rd v 0 = Some (v ! 0)"
    using assms by (cases v) (auto simp: rd_def)
  have "\<exists>s'. for_loop 1 n body (0, v ! 0) = Some s' \<and> I n s'"
  proof (rule for_loop_rule)
    show "I 1 (0, v ! 0)"
      unfolding I_def by (auto simp: order_class.order_eq_iff[of _ "0::int"]) 
  next
    show "1 \<le> n" by fact
  next
    fix j t
    assume j: "1 \<le> j" "j < n" and inv: "I j t"
    obtain mi mp where t: "t = (mi, mp)" by (cases t)
    have r: "rd v j = Some (v ! nat j)"
      using j assms by (simp add: rd_def)
    have split: "\<And>k. k < j + 1 \<longleftrightarrow> k < j \<or> k = j" by auto
    show "\<exists>t'. body j t = Some t' \<and> I (j + 1) t'"
      using inv j unfolding t body_def I_def
      by (auto simp: r split) (force+)?
  qed
  then obtain mi mp where l: "for_loop 1 n body (0, v ! 0) = Some (mi, mp)" and i: "I n (mi, mp)"
    by auto
  have "argmax v n = Some mi"
    using l unfolding argmax_def body_def by (simp add: v0)
  with i show ?thesis unfolding I_def by auto
qed

section \<open>The blocks run to their end\<close>

lemma for_loop_inv:
  assumes "I s"
    and "\<And>j t. i \<le> j \<Longrightarrow> j < n \<Longrightarrow> I t \<Longrightarrow> \<exists>t'. body j t = Some t' \<and> I t'"
  shows "\<exists>s'. for_loop i n body s = Some s' \<and> I s'"
  using assms
proof (induction i n body s rule: for_loop.induct)
  case (1 i n body s)
  show ?case
  proof (cases "i < n")
    case True
    from "1.prems"(2)[of i s] True "1.prems"(1)
    obtain t where t: "body i s = Some t" "I t" by auto
    have "\<exists>s'. for_loop (i + 1) n body t = Some s' \<and> I s'"
      by (rule "1.IH"[OF True t(1) t(2)]) (use "1.prems"(2) in force)
    then show ?thesis
      using True t(1) by (subst for_loop.simps) simp
  next
    case False
    then show ?thesis
      using "1.prems"(1) by (subst for_loop.simps) simp
  qed
qed

lemma for_loop2_inv:
  assumes "I s" and "even i"
    and "\<And>j t. i \<le> j \<Longrightarrow> j < n \<Longrightarrow> even j \<Longrightarrow> I t \<Longrightarrow> \<exists>t'. body j t = Some t' \<and> I t'"
  shows "\<exists>s'. for_loop2 i n body s = Some s' \<and> I s'"
  using assms
proof (induction i n body s rule: for_loop2.induct)
  case (1 i n body s)
  show ?case
  proof (cases "i < n")
    case True
    from "1.prems"(3)[of i s] True "1.prems"(1,2)
    obtain t where t: "body i s = Some t" "I t" by auto
    have "\<exists>s'. for_loop2 (i + 2) n body t = Some s' \<and> I s'"
      by (rule "1.IH"[OF True t(1) t(2)]) (use "1.prems"(2,3) in force)+
    then show ?thesis
      using True t(1) by (subst for_loop2.simps) simp
  next
    case False
    then show ?thesis
      using "1.prems"(1) by (subst for_loop2.simps) simp
  qed
qed

lemma row_idx_bound:
  fixes i j n d :: int
  assumes "0 \<le> i" "i < d" "0 \<le> j" "j < n"
  shows "0 \<le> i * n + j" and "i * n + j < d * n"
proof -
  have n: "0 \<le> n" using assms by simp
  show "0 \<le> i * n + j" using assms n by simp
  have "i * n + j < i * n + n" using assms by simp
  also have "\<dots> = (i + 1) * n" by (simp add: algebra_simps)
  also have "\<dots> \<le> d * n" using assms n by (intro mult_right_mono) auto
  finally show "i * n + j < d * n" .
qed

lemma matmul_row_ok:
  assumes "0 \<le> i" "i < d" "n \<le> int (length xin)"
    and "0 \<le> woff" "woff + d * n \<le> int (length wbuf)"
  shows "\<exists>val. for_loop 0 n (\<lambda>j val. do {
           wij \<leftarrow> rd wbuf (woff + (i * n + j));
           xj \<leftarrow> rd xin j;
           Some (val + wij * xj)
         }) (0::float) = Some val"
proof -
  have "\<exists>val. for_loop 0 n (\<lambda>j val. do {
           wij \<leftarrow> rd wbuf (woff + (i * n + j));
           xj \<leftarrow> rd xin j;
           Some (val + wij * xj)
         }) (0::float) = Some val \<and> True"
    apply (rule for_loop_inv[where I = "\<lambda>_. True"])
     apply simp
    subgoal for j u
      using row_idx_bound[of i d j n] assms by (simp add: rd_def)
    done
  then show ?thesis by simp
qed

lemma matmul_ok:
  assumes "d \<le> int (length xout)" "n \<le> int (length xin)"
    and "0 \<le> woff" "woff + d * n \<le> int (length wbuf)"
  shows "\<exists>r. matmul xout xin wbuf woff n d = Some r \<and> length r = length xout"
  unfolding matmul_def
  apply (rule for_loop_inv[where I = "\<lambda>r. length r = length xout"])
   apply simp
  subgoal for i t
    using matmul_row_ok[of i d n xin woff wbuf] assms by (auto simp: wr_def)
  done

lemma accum_ok:
  assumes "sz \<le> int (length a)" "sz \<le> int (length b)"
  shows "\<exists>r. accum a b sz = Some r \<and> length r = length a"
  unfolding accum_def
  by (rule for_loop_inv[where I = "\<lambda>r. length r = length a"])
     (use assms in \<open>auto simp: rd_def wr_def\<close>)

lemma rmsnorm_ok:
  assumes "sz \<le> int (length out)" "sz \<le> int (length xin)"
    and "0 \<le> weight" "weight + sz \<le> int (length wbuf)"
  shows "\<exists>r. rmsnorm out xin wbuf weight sz = Some r \<and> length r = length out"
proof -
  have "\<exists>ss. for_loop 0 sz (\<lambda>j ss. do {
         xj \<leftarrow> rd xin j;
         Some (ss + xj * xj)
       }) 0 = Some ss \<and> True"
    by (rule for_loop_inv[where I = "\<lambda>_. True"]) (use assms in \<open>auto simp: rd_def\<close>)
  then obtain ss where ss: "for_loop 0 sz (\<lambda>j ss. do {
         xj \<leftarrow> rd xin j;
         Some (ss + xj * xj)
       }) 0 = Some ss" by auto
  have "\<exists>r. for_loop 0 sz (\<lambda>j out. do {
         wj \<leftarrow> rd wbuf (weight + j);
         xj \<leftarrow> rd xin j;
         wr out j (wj * (1 / sqrt (ss / real_of_int sz + 1 / 100000) * xj))
       }) out = Some r \<and> length r = length out"
    by (rule for_loop_inv[where I = "\<lambda>r. length r = length out"])
       (use assms in \<open>auto simp: rd_def wr_def\<close>)
  then show ?thesis
    unfolding rmsnorm_def by (simp add: ss Let_def)
qed

lemma memcpy_ok:
  assumes "0 \<le> n" "0 \<le> doff" "doff + n \<le> int (length dst)"
    and "0 \<le> soff" "soff + n \<le> int (length src)"
  shows "\<exists>r. memcpy dst doff src soff n = Some r \<and> length r = length dst
           \<and> (\<forall>i. 0 \<le> i \<and> (i < doff \<or> doff + n \<le> i) \<longrightarrow> r ! nat i = dst ! nat i)
           \<and> (\<forall>i. 0 \<le> i \<and> i < n \<longrightarrow> r ! nat (doff + i) = src ! nat (soff + i))"
proof -
  define I where "I = (\<lambda>(j::int) (r::float list). length r = length dst
      \<and> (\<forall>i. 0 \<le> i \<and> (i < doff \<or> doff + n \<le> i) \<longrightarrow> r ! nat i = dst ! nat i)
      \<and> (\<forall>i. 0 \<le> i \<and> i < j \<longrightarrow> r ! nat (doff + i) = src ! nat (soff + i)))"
  have "\<exists>r. for_loop 0 n (\<lambda>i dst. do {
         a \<leftarrow> rd src (soff + i);
         wr dst (doff + i) a
       }) dst = Some r \<and> I n r"
  proof (rule for_loop_rule)
    show "I 0 dst" by (simp add: I_def)
    show "0 \<le> n" by fact
  next
    fix j t
    assume j: "0 \<le> j" "j < n" and inv: "I j t"
    have split: "\<And>k. k < j + 1 \<longleftrightarrow> k < j \<or> k = j" by auto
    have neq: "\<And>i. 0 \<le> i \<Longrightarrow> i < j \<Longrightarrow> nat (doff + j) \<noteq> nat (doff + i)"
      using assms j by auto
    have neq2: "\<And>i. 0 \<le> i \<Longrightarrow> i < doff \<or> doff + n \<le> i \<Longrightarrow> nat (doff + j) \<noteq> nat i"
      using assms j by auto
    show "\<exists>t'. do {
         a \<leftarrow> rd src (soff + j);
         wr t (doff + j) a
       } = Some t' \<and> I (j + 1) t'"
      using inv j assms unfolding I_def
      by (auto simp: rd_def wr_def split nth_list_update neq2 eq_nat_nat_iff)
  qed
  then show ?thesis
    using assms unfolding memcpy_def I_def by auto
qed

lemma softmax_ok:
  assumes "0 \<le> off" "1 \<le> sz" "off + sz \<le> int (length buf)"
  shows "\<exists>r. softmax buf off sz = Some r \<and> length r = length buf
           \<and> (\<forall>i. 0 \<le> i \<and> (i < off \<or> off + sz \<le> i) \<longrightarrow> r ! nat i = buf ! nat i)"
proof -
  define F where "F = (\<lambda>r::float list. length r = length buf
           \<and> (\<forall>i. 0 \<le> i \<and> (i < off \<or> off + sz \<le> i) \<longrightarrow> r ! nat i = buf ! nat i))"
  have m0: "rd buf off = Some (buf ! nat off)"
    using assms by (simp add: rd_def)
  have "\<exists>m. for_loop 1 sz (\<lambda>i max_val. do {
         xi \<leftarrow> rd buf (off + i);
         Some (if xi > max_val then xi else max_val)
       }) (buf ! nat off) = Some m \<and> True"
    by (rule for_loop_inv[where I = "\<lambda>_. True"]) (use assms in \<open>auto simp: rd_def\<close>)
  then obtain max_val where mx: "for_loop 1 sz (\<lambda>i max_val. do {
         xi \<leftarrow> rd buf (off + i);
         Some (if xi > max_val then xi else max_val)
       }) (buf ! nat off) = Some max_val" by auto
  have "\<exists>r. for_loop 0 sz (\<lambda>i (buf, total). do {
         xi \<leftarrow> rd buf (off + i);
         buf \<leftarrow> wr buf (off + i) (exp (xi - max_val));
         xi \<leftarrow> rd buf (off + i);
         Some (buf, total + xi)
       }) (buf, 0::float) = Some r \<and> F (fst r)"
    apply (rule for_loop_inv[where I = "\<lambda>r. F (fst r)"])
     apply (simp add: F_def)
    subgoal for j t
      using assms unfolding F_def
      by (cases t) (auto simp: rd_def wr_def nth_list_update eq_nat_nat_iff)
    done
  then obtain b2 total where l2: "for_loop 0 sz (\<lambda>i (buf, total). do {
         xi \<leftarrow> rd buf (off + i);
         buf \<leftarrow> wr buf (off + i) (exp (xi - max_val));
         xi \<leftarrow> rd buf (off + i);
         Some (buf, total + xi)
       }) (buf, 0::float) = Some (b2, total)" and b2: "F b2"
    by (metis fst_conv surj_pair)
  have "\<exists>r. for_loop 0 sz (\<lambda>i buf. do {
         xi \<leftarrow> rd buf (off + i);
         wr buf (off + i) (xi / total)
       }) b2 = Some r \<and> F r"
    apply (rule for_loop_inv[where I = F])
     apply (rule b2)
    subgoal for j t
      using assms unfolding F_def
      by (auto simp: rd_def wr_def nth_list_update eq_nat_nat_iff)
    done
  then show ?thesis
    unfolding softmax_def F_def by (simp add: m0 mx l2)
qed

lemma sdiv_nonneg: "0 \<le> a \<Longrightarrow> 0 < b \<Longrightarrow> a sdiv b = a div (b::int)"
  by (simp add: signed_divide_int_def sgn_if)

lemma rope_head_ok:
  assumes "0 \<le> h" "h < nh" "even hs"
    and "nh * hs \<le> int (length q)" "nh * hs \<le> int (length k)"
    and "0 \<le> fr" "fr + hs div 2 \<le> int (length wbuf)"
    and "0 \<le> fi" "fi + hs div 2 \<le> int (length wbuf)"
  shows "\<exists>r. for_loop2 0 hs (\<lambda>i (q, k). do {
           q0 \<leftarrow> rd q (h * hs + i);
           q1 \<leftarrow> rd q (h * hs + (i + 1));
           k0 \<leftarrow> rd k (h * hs + i);
           k1 \<leftarrow> rd k (h * hs + (i + 1));
           fcr \<leftarrow> rd wbuf (fr + i sdiv 2);
           fci \<leftarrow> rd wbuf (fi + i sdiv 2);
           q \<leftarrow> wr q (h * hs + i) (q0 * fcr - q1 * fci);
           q \<leftarrow> wr q (h * hs + (i + 1)) (q0 * fci + q1 * fcr);
           k \<leftarrow> wr k (h * hs + i) (k0 * fcr - k1 * fci);
           k \<leftarrow> wr k (h * hs + (i + 1)) (k0 * fci + k1 * fcr);
           Some (q, k)
         }) (q, k :: float list) = Some r
       \<and> length (fst r) = length q \<and> length (snd r) = length k"
  apply (rule for_loop2_inv[where I = "\<lambda>r. length (fst r) = length q \<and> length (snd r) = length k"])
    apply simp
   apply simp
  subgoal for j t
  proof -
    assume j: "0 \<le> j" "j < hs" "even j"
      and len: "length (fst t) = length q \<and> length (snd t) = length k"
    obtain tq tk where t: "t = (tq, tk)" by (cases t)
    have j1: "j + 1 < hs" using j assms(3) by presburger
    have a: "0 \<le> h * hs + j" "h * hs + j < nh * hs"
      using row_idx_bound[of h nh j hs] assms j by auto
    have b: "0 \<le> h * hs + (j + 1)" "h * hs + (j + 1) < nh * hs"
      using row_idx_bound[of h nh "j + 1" hs] assms j j1 by auto
    have c: "j sdiv 2 = j div 2" using j by (simp add: sdiv_nonneg)
    have d: "0 \<le> j div 2" "j div 2 < hs div 2" using j assms(3) by presburger+
    show ?thesis
      using a b d len assms unfolding t
      by (simp add: rd_def wr_def c)
  qed
  done

lemma rope_ok:
  assumes "even hs"
    and "n_heads p * hs \<le> int (length (rs_q s))" "n_heads p * hs \<le> int (length (rs_k s))"
    and "0 \<le> fr" "fr + hs div 2 \<le> int (length wbuf)"
    and "0 \<le> fi" "fi + hs div 2 \<le> int (length wbuf)"
  shows "\<exists>q k. rope p wbuf hs fr fi s = Some (s\<lparr>rs_q := q, rs_k := k\<rparr>)
           \<and> length q = length (rs_q s) \<and> length k = length (rs_k s)"
proof -
  define I where "I = (\<lambda>r :: float list \<times> float list.
     length (fst r) = length (rs_q s) \<and> length (snd r) = length (rs_k s))"
  have "\<exists>r. for_loop 0 (n_heads p) (\<lambda>h.
         for_loop2 0 hs (\<lambda>i (q, k). do {
           q0 \<leftarrow> rd q (h * hs + i);
           q1 \<leftarrow> rd q (h * hs + (i + 1));
           k0 \<leftarrow> rd k (h * hs + i);
           k1 \<leftarrow> rd k (h * hs + (i + 1));
           fcr \<leftarrow> rd wbuf (fr + i sdiv 2);
           fci \<leftarrow> rd wbuf (fi + i sdiv 2);
           q \<leftarrow> wr q (h * hs + i) (q0 * fcr - q1 * fci);
           q \<leftarrow> wr q (h * hs + (i + 1)) (q0 * fci + q1 * fcr);
           k \<leftarrow> wr k (h * hs + i) (k0 * fcr - k1 * fci);
           k \<leftarrow> wr k (h * hs + (i + 1)) (k0 * fci + k1 * fcr);
           Some (q, k)
         })) (rs_q s, rs_k s) = Some r \<and> I r"
    apply (rule for_loop_inv[where I = I])
     apply (simp add: I_def)
    subgoal for h t
      using rope_head_ok[of h "n_heads p" hs "fst t" "snd t" fr wbuf fi] assms
      unfolding I_def by (cases t) auto
    done
  then obtain a b where ab: "rope p wbuf hs fr fi s = Some (s\<lparr>rs_q := a, rs_k := b\<rparr>)" "I (a, b)"
    unfolding rope_def by auto
  show ?thesis
    using ab unfolding I_def by (intro exI[of _ a] exI[of _ b]) simp
qed

lemma cache_idx_bound:
  fixes l nl t sl c d :: int
  assumes "0 \<le> l" "l < nl" "0 \<le> t" "t < sl" "0 \<le> c" "c < d"
  shows "0 \<le> l * sl * d + t * d + c" and "l * sl * d + t * d + c < nl * sl * d"
proof -
  have 1: "0 \<le> t * d + c" "t * d + c < sl * d"
    using row_idx_bound[of t sl c d] assms by auto
  have 2: "0 \<le> l * (sl * d) + (t * d + c)" "l * (sl * d) + (t * d + c) < nl * (sl * d)"
    using row_idx_bound[of l nl "t * d + c" "sl * d"] assms 1 by auto
  show "0 \<le> l * sl * d + t * d + c" using 2(1) by (simp add: algebra_simps)
  show "l * sl * d + t * d + c < nl * sl * d" using 2(2) by (simp add: algebra_simps)
qed

lemma att_score_ok:
  assumes "0 \<le> h" "h < nh" "nh * hs \<le> int (length q)" "nh * hs \<le> d"
    and "0 \<le> l" "l < nl" "0 \<le> t" "t < sl" "nl * sl * d \<le> int (length kc)"
  shows "\<exists>score. for_loop 0 hs (\<lambda>i score. do {
                 qi \<leftarrow> rd q (h * hs + i);
                 ki \<leftarrow> rd kc (l * sl * d + t * d + h * hs + i);
                 Some (score + qi * ki)
               }) (0::float) = Some score"
proof -
  have "\<exists>score. for_loop 0 hs (\<lambda>i score. do {
                 qi \<leftarrow> rd q (h * hs + i);
                 ki \<leftarrow> rd kc (l * sl * d + t * d + h * hs + i);
                 Some (score + qi * ki)
               }) (0::float) = Some score \<and> True"
    apply (rule for_loop_inv[where I = "\<lambda>_. True"])
     apply simp
    subgoal for i u
    proof -
      assume i: "0 \<le> i" "i < hs"
      have a: "0 \<le> h * hs + i" "h * hs + i < nh * hs"
        using row_idx_bound[of h nh i hs] assms i by auto
      have ad: "h * hs + i < d" using assms a by auto
      have b: "0 \<le> l * sl * d + t * d + (h * hs + i)"
              "l * sl * d + t * d + (h * hs + i) < nl * sl * d"
        using cache_idx_bound[OF \<open>0 \<le> l\<close> \<open>l < nl\<close> \<open>0 \<le> t\<close> \<open>t < sl\<close> a(1) ad] by auto
      show ?thesis using a b assms by (simp add: rd_def add.assoc)
    qed
    done
  then show ?thesis by simp
qed

lemma att_fill_ok:
  assumes "0 \<le> h" "h < nh" "nh * hs \<le> int (length q)" "nh * hs \<le> d"
    and "0 \<le> l" "l < nl" "pos < sl" "nl * sl * d \<le> int (length kc)"
    and "nh * sl \<le> int (length att)"
  shows "\<exists>r. for_loop 0 (pos + 1) (\<lambda>t att. do {
             score \<leftarrow> for_loop 0 hs (\<lambda>i score. do {
                 qi \<leftarrow> rd q (h * hs + i);
                 ki \<leftarrow> rd kc (l * sl * d + t * d + h * hs + i);
                 Some (score + qi * ki)
               }) (0::float);
             let score = score / sqrt (real_of_int hs);
             wr att (h * sl + t) score
           }) att = Some r \<and> length r = length att"
  apply (rule for_loop_inv[where I = "\<lambda>r. length r = length att"])
   apply simp
  subgoal for t u
    using att_score_ok[of h nh hs q d l nl t sl kc] row_idx_bound[of h nh t sl] assms
    by (auto simp: wr_def Let_def)
  done

lemma att_value_ok:
  assumes "0 \<le> h" "h < nh" "0 \<le> i" "i < hs" "nh * hs \<le> d"
    and "0 \<le> l" "l < nl" "pos < sl" "nl * sl * d \<le> int (length vc)"
    and "nh * sl \<le> int (length att)"
  shows "\<exists>val. for_loop 0 (pos + 1) (\<lambda>t val. do {
                 a \<leftarrow> rd att (h * sl + t);
                 c \<leftarrow> rd vc (l * sl * d + t * d + h * hs + i);
                 Some (val + a * c)
               }) (0::float) = Some val"
proof -
  have "\<exists>val. for_loop 0 (pos + 1) (\<lambda>t val. do {
                 a \<leftarrow> rd att (h * sl + t);
                 c \<leftarrow> rd vc (l * sl * d + t * d + h * hs + i);
                 Some (val + a * c)
               }) (0::float) = Some val \<and> True"
    apply (rule for_loop_inv[where I = "\<lambda>_. True"])
     apply simp
    subgoal for t u
    proof -
      assume t: "0 \<le> t" "t < pos + 1"
      have a: "0 \<le> h * hs + i" "h * hs + i < nh * hs"
        using row_idx_bound[of h nh i hs] assms by auto
      have tl: "t < sl" and ad: "h * hs + i < d" using t assms a by auto
      have b: "0 \<le> l * sl * d + t * d + (h * hs + i)"
              "l * sl * d + t * d + (h * hs + i) < nl * sl * d"
        using cache_idx_bound[OF \<open>0 \<le> l\<close> \<open>l < nl\<close> \<open>0 \<le> t\<close> tl a(1) ad] by auto
      have c: "0 \<le> h * sl + t" "h * sl + t < nh * sl"
        using row_idx_bound[of h nh t sl] assms t by auto
      show ?thesis using a b c assms by (simp add: rd_def add.assoc)
    qed
    done
  then show ?thesis by simp
qed

lemma att_xb_ok:
  assumes "0 \<le> h" "h < nh" "nh * hs \<le> d" "nh * hs \<le> int (length xb)"
    and "0 \<le> l" "l < nl" "pos < sl" "nl * sl * d \<le> int (length vc)"
    and "nh * sl \<le> int (length att)"
  shows "\<exists>r. for_loop 0 hs (\<lambda>i xb. do {
             val \<leftarrow> for_loop 0 (pos + 1) (\<lambda>t val. do {
                 a \<leftarrow> rd att (h * sl + t);
                 c \<leftarrow> rd vc (l * sl * d + t * d + h * hs + i);
                 Some (val + a * c)
               }) (0::float);
             wr xb (h * hs + i) val
           }) xb = Some r \<and> length r = length xb"
  apply (rule for_loop_inv[where I = "\<lambda>r. length r = length xb"])
   apply simp
  subgoal for i u
    using att_value_ok[of h nh i hs d l nl pos sl vc att] row_idx_bound[of h nh i hs] assms
    by (auto simp: wr_def)
  done

lemma attention_ok:
  assumes "0 \<le> pos" "pos < seq_len p" "0 \<le> l" "l < nl"
    and "n_heads p * hs \<le> dim p"
    and "n_heads p * hs \<le> int (length (rs_q s))" "n_heads p * hs \<le> int (length (rs_xb s))"
    and "n_heads p * seq_len p \<le> int (length (rs_att s))"
    and "nl * seq_len p * dim p \<le> int (length (rs_key_cache s))"
    and "nl * seq_len p * dim p \<le> int (length (rs_value_cache s))"
  shows "\<exists>att xb. attention p hs pos l s = Some (s\<lparr>rs_att := att, rs_xb := xb\<rparr>)
           \<and> length att = length (rs_att s) \<and> length xb = length (rs_xb s)"
proof -
  define I where "I = (\<lambda>r :: float list \<times> float list.
     length (fst r) = length (rs_att s) \<and> length (snd r) = length (rs_xb s))"
  have "\<exists>r. for_loop 0 (n_heads p) (\<lambda>h (att, xb). do {
         att \<leftarrow> for_loop 0 (pos + 1) (\<lambda>t att. do {
             score \<leftarrow> for_loop 0 hs (\<lambda>i score. do {
                 qi \<leftarrow> rd (rs_q s) (h * hs + i);
                 ki \<leftarrow> rd (rs_key_cache s) (l * seq_len p * dim p + t * dim p + h * hs + i);
                 Some (score + qi * ki)
               }) 0;
             let score = score / sqrt (real_of_int hs);
             wr att (h * seq_len p + t) score
           }) att;
         att \<leftarrow> softmax att (h * seq_len p) (pos + 1);
         xb \<leftarrow> for_loop 0 hs (\<lambda>i xb. do {
             val \<leftarrow> for_loop 0 (pos + 1) (\<lambda>t val. do {
                 a \<leftarrow> rd att (h * seq_len p + t);
                 c \<leftarrow> rd (rs_value_cache s) (l * seq_len p * dim p + t * dim p + h * hs + i);
                 Some (val + a * c)
               }) 0;
             wr xb (h * hs + i) val
           }) xb;
         Some (att, xb)
       }) (rs_att s, rs_xb s) = Some r \<and> I r"
    apply (rule for_loop_inv[where I = I])
     apply (simp add: I_def)
    subgoal for h u
    proof -
      assume h: "0 \<le> h" "h < n_heads p" and inv: "I u"
      obtain att xb where u: "u = (att, xb)" by (cases u)
      have len: "length att = length (rs_att s)" "length xb = length (rs_xb s)"
        using inv unfolding u I_def by auto
      obtain att1 where att1: "for_loop 0 (pos + 1) (\<lambda>t att. do {
             score \<leftarrow> for_loop 0 hs (\<lambda>i score. do {
                 qi \<leftarrow> rd (rs_q s) (h * hs + i);
                 ki \<leftarrow> rd (rs_key_cache s) (l * seq_len p * dim p + t * dim p + h * hs + i);
                 Some (score + qi * ki)
               }) 0;
             let score = score / sqrt (real_of_int hs);
             wr att (h * seq_len p + t) score
           }) att = Some att1" and len1: "length att1 = length att"
        using att_fill_ok[of h "n_heads p" hs "rs_q s" "dim p" l nl pos "seq_len p" "rs_key_cache s" att]
          h assms len by auto
      have off: "0 \<le> h * seq_len p" "h * seq_len p + (pos + 1) \<le> n_heads p * seq_len p"
        using row_idx_bound[of h "n_heads p" pos "seq_len p"] h assms by auto
      obtain att2 where att2: "softmax att1 (h * seq_len p) (pos + 1) = Some att2"
        and len2: "length att2 = length att1"
        using softmax_ok[of "h * seq_len p" "pos + 1" att1] off assms len len1 by auto
      obtain xb1 where xb1: "for_loop 0 hs (\<lambda>i xb. do {
             val \<leftarrow> for_loop 0 (pos + 1) (\<lambda>t val. do {
                 a \<leftarrow> rd att2 (h * seq_len p + t);
                 c \<leftarrow> rd (rs_value_cache s) (l * seq_len p * dim p + t * dim p + h * hs + i);
                 Some (val + a * c)
               }) 0;
             wr xb (h * hs + i) val
           }) xb = Some xb1" and lenx: "length xb1 = length xb"
        using att_xb_ok[of h "n_heads p" hs "dim p" xb l nl pos "seq_len p" "rs_value_cache s" att2]
          h assms len len1 len2 by auto
      show ?thesis
        unfolding u I_def using att1 att2 xb1 len len1 len2 lenx by simp
    qed
    done
  then obtain a b where ab: "attention p hs pos l s = Some (s\<lparr>rs_att := a, rs_xb := b\<rparr>)" "I (a, b)"
    unfolding attention_def by (auto simp: Let_def)
  show ?thesis
    using ab unfolding I_def by (intro exI[of _ a] exI[of _ b]) simp
qed

section \<open>The stages of a layer\<close>

lemma off1:
  fixes l nl a :: int
  assumes "0 \<le> l" "l < nl" "0 \<le> a"
  shows "0 \<le> l * a" and "l * a + a \<le> nl * a"
proof -
  show "0 \<le> l * a" using assms by simp
  have "l * a + a = (l + 1) * a" by (simp add: algebra_simps)
  also have "\<dots> \<le> nl * a" using assms by (intro mult_right_mono) auto
  finally show "l * a + a \<le> nl * a" .
qed

lemma off2:
  fixes l nl a b :: int
  assumes "0 \<le> l" "l < nl" "0 \<le> a" "0 \<le> b"
  shows "0 \<le> l * a * b" and "l * a * b + a * b \<le> nl * a * b"
    and "l * a * b + b * a \<le> nl * a * b"
proof -
  have ab: "0 \<le> a * b" using assms by simp
  from off1[OF assms(1,2) ab]
  show "0 \<le> l * a * b" "l * a * b + a * b \<le> nl * a * b"
    by (simp_all add: mult.assoc)
  then show "l * a * b + b * a \<le> nl * a * b" by (simp add: mult.commute)
qed

lemma head_size_props:
  assumes "config_ok p"
  shows "0 \<le> head_size_of p" "n_heads p * head_size_of p \<le> dim p" "even (head_size_of p)"
    "c_div (dim p) (n_heads p) = Some (head_size_of p)"
proof -
  have pos: "0 < dim p" "0 < n_heads p" using assms by (auto simp: config_ok_def)
  have hs: "head_size_of p = dim p div n_heads p"
    using pos by (simp add: head_size_of_def sdiv_nonneg)
  show "0 \<le> head_size_of p" using pos hs by (simp add: pos_imp_zdiv_nonneg_iff)
  have "n_heads p * (dim p div n_heads p) \<le> dim p"
    using pos mult_div_mod_eq[of "n_heads p" "dim p"] pos_mod_sign[of "n_heads p" "dim p"]
    by linarith
  then show "n_heads p * head_size_of p \<le> dim p" using hs by simp
  show "even (head_size_of p)" using assms by (simp add: config_ok_def)
  show "c_div (dim p) (n_heads p) = Some (head_size_of p)"
    using pos by (simp add: c_div_def head_size_of_def)
qed

lemma freq_row_bound:
  fixes pos sl hs :: int
  assumes "0 \<le> pos" "pos < sl" "0 \<le> hs" "even hs"
  shows "0 \<le> (pos * hs) sdiv 2" and "(pos * hs) sdiv 2 + hs div 2 \<le> (sl * hs) sdiv 2"
proof -
  obtain m where m: "hs = 2 * m" using assms(4) by (auto elim: evenE)
  have m0: "0 \<le> m" using assms m by simp
  have a: "(pos * hs) sdiv 2 = pos * m"
    using assms m0 by (simp add: sdiv_nonneg m)
  have b: "(sl * hs) sdiv 2 = sl * m"
    using assms m0 by (simp add: sdiv_nonneg m)
  show "0 \<le> (pos * hs) sdiv 2" using a assms m0 by simp
  have "pos * m + m \<le> sl * m" using off1[of pos sl m] assms m0 by simp
  then show "(pos * hs) sdiv 2 + hs div 2 \<le> (sl * hs) sdiv 2"
    using a b m by simp
qed

lemma att_norm_ok:
  assumes "config_ok p" "state_ok p s" "weights_ok p w wbuf" "0 \<le> l" "l < n_layers p"
  shows "\<exists>xb. att_norm p wbuf w l s = Some (s\<lparr>rs_xb := xb\<rparr>)
           \<and> length xb = length (rs_xb s)"
proof -
  have d: "0 \<le> dim p" using assms(1) by (simp add: config_ok_def)
  note o1 = off1[OF assms(4,5) d]
  obtain xb where xb: "rmsnorm (rs_xb s) (rs_x s) wbuf (rms_att_weight w + l * dim p) (dim p) = Some xb"
    and lxb: "length xb = length (rs_xb s)"
    using rmsnorm_ok[of "dim p" "rs_xb s" "rs_x s" "rms_att_weight w + l * dim p" wbuf]
      assms(2,3) o1 by (auto simp: state_ok_def weights_ok_def)
  have "att_norm p wbuf w l s = Some (s\<lparr>rs_xb := xb\<rparr>)"
    unfolding att_norm_def by (simp add: xb)
  then show ?thesis using lxb by blast
qed

lemma qkv_ok:
  assumes "config_ok p" "state_ok p s" "weights_ok p w wbuf" "0 \<le> l" "l < n_layers p"
  shows "\<exists>q k v. qkv p wbuf w l s = Some (s\<lparr>rs_q := q, rs_k := k, rs_v := v\<rparr>)
           \<and> length q = length (rs_q s)
           \<and> length k = length (rs_k s) \<and> length v = length (rs_v s)"
proof -
  have d: "0 \<le> dim p" using assms(1) by (simp add: config_ok_def)
  note o2 = off2[OF assms(4,5) d d]
  obtain q where q: "matmul (rs_q s) (rs_xb s) wbuf (wq w + l * dim p * dim p) (dim p) (dim p) = Some q"
    and lq: "length q = length (rs_q s)"
    using matmul_ok[of "dim p" "rs_q s" "dim p" "rs_xb s" "wq w + l * dim p * dim p" wbuf]
      assms(2,3) o2 by (auto simp: state_ok_def weights_ok_def)
  obtain k where k: "matmul (rs_k s) (rs_xb s) wbuf (wk w + l * dim p * dim p) (dim p) (dim p) = Some k"
    and lk: "length k = length (rs_k s)"
    using matmul_ok[of "dim p" "rs_k s" "dim p" "rs_xb s" "wk w + l * dim p * dim p" wbuf]
      assms(2,3) o2 by (auto simp: state_ok_def weights_ok_def)
  obtain v where v: "matmul (rs_v s) (rs_xb s) wbuf (wv w + l * dim p * dim p) (dim p) (dim p) = Some v"
    and lv: "length v = length (rs_v s)"
    using matmul_ok[of "dim p" "rs_v s" "dim p" "rs_xb s" "wv w + l * dim p * dim p" wbuf]
      assms(2,3) o2 by (auto simp: state_ok_def weights_ok_def)
  have "qkv p wbuf w l s = Some (s\<lparr>rs_q := q, rs_k := k, rs_v := v\<rparr>)"
    unfolding qkv_def by (simp add: q k v)
  then show ?thesis using lq lk lv by blast
qed

lemma rope_stage_ok:
  assumes "config_ok p" "state_ok p s" "weights_ok p w wbuf" "0 \<le> pos" "pos < seq_len p"
  shows "\<exists>q k. rope p wbuf (head_size_of p)
                 (freq_cis_real w + (pos * head_size_of p) sdiv 2)
                 (freq_cis_imag w + (pos * head_size_of p) sdiv 2) s
               = Some (s\<lparr>rs_q := q, rs_k := k\<rparr>)
           \<and> length q = length (rs_q s) \<and> length k = length (rs_k s)"
proof -
  note hs = head_size_props[OF assms(1)]
  note fb = freq_row_bound[OF assms(4,5) hs(1) hs(3)]
  show ?thesis
    apply (rule rope_ok)
    using hs fb assms(2,3) by (auto simp: state_ok_def weights_ok_def)
qed

lemma slot_bound:
  fixes l nl pos sl d :: int
  assumes "0 \<le> l" "l < nl" "0 \<le> pos" "pos < sl" "0 < d"
  shows "0 \<le> l * sl * d + pos * d" and "l * sl * d + pos * d + d \<le> nl * sl * d"
  using cache_idx_bound[of l nl pos sl 0 d] cache_idx_bound[of l nl pos sl "d - 1" d] assms
  by auto

lemma save_kv_ok:
  assumes "config_ok p" "state_ok p s" "0 \<le> pos" "pos < seq_len p" "0 \<le> l" "l < n_layers p"
  shows "\<exists>kc vc. save_kv p pos l s = Some (s\<lparr>rs_key_cache := kc, rs_value_cache := vc\<rparr>)
           \<and> length kc = length (rs_key_cache s) \<and> length vc = length (rs_value_cache s)
           \<and> (\<forall>i. 0 \<le> i \<and> \<not> in_slot p l pos i \<longrightarrow> kc ! nat i = rs_key_cache s ! nat i)
           \<and> (\<forall>i. 0 \<le> i \<and> \<not> in_slot p l pos i \<longrightarrow> vc ! nat i = rs_value_cache s ! nat i)
           \<and> (\<forall>i. 0 \<le> i \<and> i < dim p \<longrightarrow>
                 kc ! nat (l * seq_len p * dim p + pos * dim p + i) = rs_k s ! nat i)
           \<and> (\<forall>i. 0 \<le> i \<and> i < dim p \<longrightarrow>
                 vc ! nat (l * seq_len p * dim p + pos * dim p + i) = rs_v s ! nat i)"
proof -
  have d: "0 < dim p" using assms(1) by (simp add: config_ok_def)
  note sb = slot_bound[OF assms(5,6,3,4) d]
  obtain kc where kc: "memcpy (rs_key_cache s) (l * seq_len p * dim p + pos * dim p) (rs_k s) 0 (dim p) = Some kc"
    and lkc: "length kc = length (rs_key_cache s)"
    and fkc: "\<forall>i. 0 \<le> i \<and> (i < l * seq_len p * dim p + pos * dim p
                \<or> l * seq_len p * dim p + pos * dim p + dim p \<le> i)
              \<longrightarrow> kc ! nat i = rs_key_cache s ! nat i"
    and ckc: "\<forall>i. 0 \<le> i \<and> i < dim p \<longrightarrow>
                 kc ! nat (l * seq_len p * dim p + pos * dim p + i) = rs_k s ! nat (0 + i)"
    using memcpy_ok[of "dim p" "l * seq_len p * dim p + pos * dim p" "rs_key_cache s" 0 "rs_k s"]
      d sb assms(2) by (auto simp: state_ok_def)
  obtain vc where vc: "memcpy (rs_value_cache s) (l * seq_len p * dim p + pos * dim p) (rs_v s) 0 (dim p) = Some vc"
    and lvc: "length vc = length (rs_value_cache s)"
    and fvc: "\<forall>i. 0 \<le> i \<and> (i < l * seq_len p * dim p + pos * dim p
                \<or> l * seq_len p * dim p + pos * dim p + dim p \<le> i)
              \<longrightarrow> vc ! nat i = rs_value_cache s ! nat i"
    and cvc: "\<forall>i. 0 \<le> i \<and> i < dim p \<longrightarrow>
                 vc ! nat (l * seq_len p * dim p + pos * dim p + i) = rs_v s ! nat (0 + i)"
    using memcpy_ok[of "dim p" "l * seq_len p * dim p + pos * dim p" "rs_value_cache s" 0 "rs_v s"]
      d sb assms(2) by (auto simp: state_ok_def)
  have "save_kv p pos l s = Some (s\<lparr>rs_key_cache := kc, rs_value_cache := vc\<rparr>)"
    unfolding save_kv_def by (simp add: kc vc Let_def)
  moreover have "\<forall>i. 0 \<le> i \<and> \<not> in_slot p l pos i \<longrightarrow> kc ! nat i = rs_key_cache s ! nat i"
    using fkc unfolding in_slot_def by auto
  moreover have "\<forall>i. 0 \<le> i \<and> \<not> in_slot p l pos i \<longrightarrow> vc ! nat i = rs_value_cache s ! nat i"
    using fvc unfolding in_slot_def by auto
  ultimately show ?thesis
    using lkc lvc ckc cvc by (intro exI[of _ kc] exI[of _ vc]) simp
qed

lemma attention_stage_ok:
  assumes "config_ok p" "state_ok p s" "0 \<le> pos" "pos < seq_len p" "0 \<le> l" "l < n_layers p"
  shows "\<exists>att xb. attention p (head_size_of p) pos l s = Some (s\<lparr>rs_att := att, rs_xb := xb\<rparr>)
           \<and> length att = length (rs_att s) \<and> length xb = length (rs_xb s)"
proof -
  note hs = head_size_props[OF assms(1)]
  show ?thesis
    apply (rule attention_ok[where nl = "n_layers p"])
    using hs assms by (auto simp: state_ok_def)
qed

lemma attn_out_ok:
  assumes "config_ok p" "state_ok p s" "weights_ok p w wbuf" "0 \<le> l" "l < n_layers p"
  shows "\<exists>xb2 x. attn_out p wbuf w l s = Some (s\<lparr>rs_xb2 := xb2, rs_x := x\<rparr>)
           \<and> length xb2 = length (rs_xb2 s) \<and> length x = length (rs_x s)"
proof -
  have d: "0 \<le> dim p" using assms(1) by (simp add: config_ok_def)
  note o2 = off2[OF assms(4,5) d d]
  obtain xb2 where xb2: "matmul (rs_xb2 s) (rs_xb s) wbuf (wo w + l * dim p * dim p) (dim p) (dim p) = Some xb2"
    and lxb2: "length xb2 = length (rs_xb2 s)"
    using matmul_ok[of "dim p" "rs_xb2 s" "dim p" "rs_xb s" "wo w + l * dim p * dim p" wbuf]
      assms(2,3) o2 by (auto simp: state_ok_def weights_ok_def)
  obtain x where x: "accum (rs_x s) xb2 (dim p) = Some x" and lx: "length x = length (rs_x s)"
    using accum_ok[of "dim p" "rs_x s" xb2] assms(2) lxb2 by (auto simp: state_ok_def)
  have "attn_out p wbuf w l s = Some (s\<lparr>rs_xb2 := xb2, rs_x := x\<rparr>)"
    unfolding attn_out_def by (simp add: xb2 x)
  then show ?thesis using lxb2 lx by blast
qed

lemma silu_ok:
  assumes "n \<le> int (length hb)"
  shows "\<exists>r. for_loop 0 n (\<lambda>i hb. do {
         a \<leftarrow> rd hb i;
         wr hb i (a * (1 / (1 + exp (- a))))
       }) (hb :: float list) = Some r \<and> length r = length hb"
  by (rule for_loop_inv[where I = "\<lambda>r. length r = length hb"])
     (use assms in \<open>auto simp: rd_def wr_def\<close>)

lemma gate_ok:
  assumes "n \<le> int (length hb)" "n \<le> int (length hb2)"
  shows "\<exists>r. for_loop 0 n (\<lambda>i hb. do {
         a \<leftarrow> rd hb i;
         b \<leftarrow> rd hb2 i;
         wr hb i (a * b)
       }) (hb :: float list) = Some r \<and> length r = length hb"
  by (rule for_loop_inv[where I = "\<lambda>r. length r = length hb"])
     (use assms in \<open>auto simp: rd_def wr_def\<close>)

lemma ffn_ok:
  assumes "config_ok p" "state_ok p s" "weights_ok p w wbuf" "0 \<le> l" "l < n_layers p"
  shows "\<exists>xb hb hb2 x. ffn p wbuf w l s = Some (s\<lparr>rs_xb := xb, rs_hb := hb, rs_hb2 := hb2, rs_x := x\<rparr>)
           \<and> length xb = length (rs_xb s) \<and> length hb = length (rs_hb s)
           \<and> length hb2 = length (rs_hb2 s) \<and> length x = length (rs_x s)"
proof -
  have d: "0 \<le> dim p" "0 \<le> hidden_dim p" using assms(1) by (simp_all add: config_ok_def)
  note o1 = off1[OF assms(4,5) d(1)]
  note o2 = off2[OF assms(4,5) d(1) d(2)]
  obtain xb where xb: "rmsnorm (rs_xb s) (rs_x s) wbuf (rms_ffn_weight w + l * dim p) (dim p) = Some xb"
    and lxb: "length xb = length (rs_xb s)"
    using rmsnorm_ok[of "dim p" "rs_xb s" "rs_x s" "rms_ffn_weight w + l * dim p" wbuf]
      assms(2,3) o1 by (auto simp: state_ok_def weights_ok_def)
  obtain hb where hb: "matmul (rs_hb s) xb wbuf (w1 w + l * dim p * hidden_dim p) (dim p) (hidden_dim p) = Some hb"
    and lhb: "length hb = length (rs_hb s)"
    using matmul_ok[of "hidden_dim p" "rs_hb s" "dim p" xb "w1 w + l * dim p * hidden_dim p" wbuf]
      assms(2,3) o2 lxb by (auto simp: state_ok_def weights_ok_def)
  obtain hb2 where hb2: "matmul (rs_hb2 s) xb wbuf (w3 w + l * dim p * hidden_dim p) (dim p) (hidden_dim p) = Some hb2"
    and lhb2: "length hb2 = length (rs_hb2 s)"
    using matmul_ok[of "hidden_dim p" "rs_hb2 s" "dim p" xb "w3 w + l * dim p * hidden_dim p" wbuf]
      assms(2,3) o2 lxb by (auto simp: state_ok_def weights_ok_def)
  obtain hbs where hbs: "for_loop 0 (hidden_dim p) (\<lambda>i hb. do {
         a \<leftarrow> rd hb i;
         wr hb i (a * (1 / (1 + exp (- a))))
       }) hb = Some hbs" and lhbs: "length hbs = length hb"
    using silu_ok[of "hidden_dim p" hb] assms(2) lhb by (auto simp: state_ok_def)
  obtain hbg where hbg: "for_loop 0 (hidden_dim p) (\<lambda>i hb. do {
         a \<leftarrow> rd hb i;
         b \<leftarrow> rd hb2 i;
         wr hb i (a * b)
       }) hbs = Some hbg" and lhbg: "length hbg = length hbs"
    using gate_ok[of "hidden_dim p" hbs hb2] assms(2) lhb lhbs lhb2 by (auto simp: state_ok_def)
  obtain xb' where xb': "matmul xb hbg wbuf (w2 w + l * dim p * hidden_dim p) (hidden_dim p) (dim p) = Some xb'"
    and lxb': "length xb' = length xb"
    using matmul_ok[of "dim p" xb "hidden_dim p" hbg "w2 w + l * dim p * hidden_dim p" wbuf]
      assms(2,3) o2 lxb lhbg lhbs lhb by (auto simp: state_ok_def weights_ok_def)
  obtain x where x: "accum (rs_x s) xb' (dim p) = Some x" and lx: "length x = length (rs_x s)"
    using accum_ok[of "dim p" "rs_x s" xb'] assms(2) lxb lxb' by (auto simp: state_ok_def)
  have "ffn p wbuf w l s = Some (s\<lparr>rs_xb := xb', rs_hb := hbg, rs_hb2 := hb2, rs_x := x\<rparr>)"
    unfolding ffn_def by (simp add: xb hb hb2 hbs hbg xb' x del: times_divide_eq_right)
  then show ?thesis using lxb lxb' lhb lhbs lhbg lhb2 lx
    by (intro exI[of _ xb'] exI[of _ hbg] exI[of _ hb2] exI[of _ x]) simp
qed

lemma layer_ok:
  assumes "config_ok p" "state_ok p s" "weights_ok p w wbuf"
    and "0 \<le> pos" "pos < seq_len p" "0 \<le> l" "l < n_layers p"
  shows "\<exists>s'. layer pos p wbuf w (head_size_of p)
                 (freq_cis_real w + (pos * head_size_of p) sdiv 2)
                 (freq_cis_imag w + (pos * head_size_of p) sdiv 2) l s = Some s'
           \<and> state_ok p s'
           \<and> (\<forall>i. 0 \<le> i \<and> \<not> in_slot p l pos i \<longrightarrow>
                 rs_key_cache s' ! nat i = rs_key_cache s ! nat i)
           \<and> (\<forall>i. 0 \<le> i \<and> \<not> in_slot p l pos i \<longrightarrow>
                 rs_value_cache s' ! nat i = rs_value_cache s ! nat i)
           \<and> (\<forall>i. 0 \<le> i \<and> i < dim p \<longrightarrow>
                 rs_key_cache s' ! nat (l * seq_len p * dim p + pos * dim p + i) = rs_k s' ! nat i)
           \<and> (\<forall>i. 0 \<le> i \<and> i < dim p \<longrightarrow>
                 rs_value_cache s' ! nat (l * seq_len p * dim p + pos * dim p + i) = rs_v s' ! nat i)"
proof -
  obtain xb where s0: "att_norm p wbuf w l s = Some (s\<lparr>rs_xb := xb\<rparr>)"
    and l0: "length xb = length (rs_xb s)"
    using att_norm_ok[OF assms(1,2,3,6,7)] by blast
  define t0 where "t0 = s\<lparr>rs_xb := xb\<rparr>"
  have ok0: "state_ok p t0" using assms(2) l0 by (simp add: state_ok_def t0_def)
  obtain q k v where s1: "qkv p wbuf w l t0 = Some (t0\<lparr>rs_q := q, rs_k := k, rs_v := v\<rparr>)"
    and l1: "length q = length (rs_q t0)"
            "length k = length (rs_k t0)" "length v = length (rs_v t0)"
    using qkv_ok[OF assms(1) ok0 assms(3,6,7)] by blast
  define t1 where "t1 = t0\<lparr>rs_q := q, rs_k := k, rs_v := v\<rparr>"
  have ok1: "state_ok p t1" using ok0 l1 by (simp add: state_ok_def t1_def)
  obtain q' k' where s2: "rope p wbuf (head_size_of p)
                 (freq_cis_real w + (pos * head_size_of p) sdiv 2)
                 (freq_cis_imag w + (pos * head_size_of p) sdiv 2) t1
               = Some (t1\<lparr>rs_q := q', rs_k := k'\<rparr>)"
    and l2: "length q' = length (rs_q t1)" "length k' = length (rs_k t1)"
    using rope_stage_ok[OF assms(1) ok1 assms(3,4,5)] by blast
  define t2 where "t2 = t1\<lparr>rs_q := q', rs_k := k'\<rparr>"
  have ok2: "state_ok p t2" using ok1 l2 by (simp add: state_ok_def t2_def)
  obtain kc vc where s3: "save_kv p pos l t2 = Some (t2\<lparr>rs_key_cache := kc, rs_value_cache := vc\<rparr>)"
    and l3: "length kc = length (rs_key_cache t2)" "length vc = length (rs_value_cache t2)"
    and f3: "\<forall>i. 0 \<le> i \<and> \<not> in_slot p l pos i \<longrightarrow> kc ! nat i = rs_key_cache t2 ! nat i"
            "\<forall>i. 0 \<le> i \<and> \<not> in_slot p l pos i \<longrightarrow> vc ! nat i = rs_value_cache t2 ! nat i"
    and c3: "\<forall>i. 0 \<le> i \<and> i < dim p \<longrightarrow>
                 kc ! nat (l * seq_len p * dim p + pos * dim p + i) = rs_k t2 ! nat i"
            "\<forall>i. 0 \<le> i \<and> i < dim p \<longrightarrow>
                 vc ! nat (l * seq_len p * dim p + pos * dim p + i) = rs_v t2 ! nat i"
    using save_kv_ok[OF assms(1) ok2 assms(4,5,6,7)] by blast
  define t3 where "t3 = t2\<lparr>rs_key_cache := kc, rs_value_cache := vc\<rparr>"
  have ok3: "state_ok p t3" using ok2 l3 by (simp add: state_ok_def t3_def)
  obtain att xb' where s4: "attention p (head_size_of p) pos l t3 = Some (t3\<lparr>rs_att := att, rs_xb := xb'\<rparr>)"
    and l4: "length att = length (rs_att t3)" "length xb' = length (rs_xb t3)"
    using attention_stage_ok[OF assms(1) ok3 assms(4,5,6,7)] by blast
  define t4 where "t4 = t3\<lparr>rs_att := att, rs_xb := xb'\<rparr>"
  have ok4: "state_ok p t4" using ok3 l4 by (simp add: state_ok_def t4_def)
  obtain xb2 x where s5: "attn_out p wbuf w l t4 = Some (t4\<lparr>rs_xb2 := xb2, rs_x := x\<rparr>)"
    and l5: "length xb2 = length (rs_xb2 t4)" "length x = length (rs_x t4)"
    using attn_out_ok[OF assms(1) ok4 assms(3,6,7)] by blast
  define t5 where "t5 = t4\<lparr>rs_xb2 := xb2, rs_x := x\<rparr>"
  have ok5: "state_ok p t5" using ok4 l5 by (simp add: state_ok_def t5_def)
  obtain xb3 hb hb2 x' where s6: "ffn p wbuf w l t5 = Some (t5\<lparr>rs_xb := xb3, rs_hb := hb, rs_hb2 := hb2, rs_x := x'\<rparr>)"
    and l6: "length xb3 = length (rs_xb t5)" "length hb = length (rs_hb t5)"
            "length hb2 = length (rs_hb2 t5)" "length x' = length (rs_x t5)"
    using ffn_ok[OF assms(1) ok5 assms(3,6,7)] by blast
  define t6 where "t6 = t5\<lparr>rs_xb := xb3, rs_hb := hb, rs_hb2 := hb2, rs_x := x'\<rparr>"
  have ok6: "state_ok p t6" using ok5 l6 by (simp add: state_ok_def t6_def)
  have run: "layer pos p wbuf w (head_size_of p)
                 (freq_cis_real w + (pos * head_size_of p) sdiv 2)
                 (freq_cis_imag w + (pos * head_size_of p) sdiv 2) l s = Some t6"
    unfolding layer_def
    using s0 s1 s2 s3 s4 s5 s6 by (simp add: t0_def[symmetric] t1_def[symmetric]
        t2_def[symmetric] t3_def[symmetric] t4_def[symmetric] t5_def[symmetric] t6_def[symmetric])
  have kc6: "rs_key_cache t6 = kc" "rs_value_cache t6 = vc"
    by (simp_all add: t6_def t5_def t4_def t3_def)
  have kv6: "rs_k t6 = rs_k t2" "rs_v t6 = rs_v t2"
    by (simp_all add: t6_def t5_def t4_def t3_def)
  have c0: "rs_key_cache t2 = rs_key_cache s" "rs_value_cache t2 = rs_value_cache s"
    by (simp_all add: t2_def t1_def t0_def)
  show ?thesis
    using run ok6 f3[unfolded c0] c3 by (intro exI[of _ t6]) (simp add: kc6 kv6)
qed


lemma transformer_ok:
  assumes "config_ok p" "state_ok p s" "weights_ok p w wbuf" "row_ok p w wbuf token"
    and "0 \<le> pos" "pos < seq_len p"
  shows "\<exists>s'. transformer token pos p s wbuf w = Some s' \<and> state_ok p s'
           \<and> (\<forall>i. 0 \<le> i \<and> (\<forall>l. 0 \<le> l \<and> l < n_layers p \<longrightarrow> \<not> in_slot p l pos i) \<longrightarrow>
                 rs_key_cache s' ! nat i = rs_key_cache s ! nat i)
           \<and> (\<forall>i. 0 \<le> i \<and> (\<forall>l. 0 \<le> l \<and> l < n_layers p \<longrightarrow> \<not> in_slot p l pos i) \<longrightarrow>
                 rs_value_cache s' ! nat i = rs_value_cache s ! nat i)"
proof -
  note hs = head_size_props[OF assms(1)]
  have d: "0 < dim p" "0 < n_layers p" "0 \<le> vocab_size p"
    using assms(1) by (simp_all add: config_ok_def)
  obtain x where x: "memcpy (rs_x s) 0 wbuf (token_embedding_table w + token * dim p) (dim p) = Some x"
    and lx: "length x = length (rs_x s)"
    using memcpy_ok[of "dim p" 0 "rs_x s" "token_embedding_table w + token * dim p" wbuf]
      assms(2,4) d by (auto simp: state_ok_def row_ok_def)
  define t0 where "t0 = s\<lparr>rs_x := x\<rparr>"
  have ok0: "state_ok p t0" using assms(2) lx by (simp add: state_ok_def t0_def)
  define I where "I = (\<lambda>(j::int) t. state_ok p t
      \<and> (\<forall>i. 0 \<le> i \<and> (\<forall>l. 0 \<le> l \<and> l < j \<longrightarrow> \<not> in_slot p l pos i) \<longrightarrow>
                 rs_key_cache t ! nat i = rs_key_cache s ! nat i)
      \<and> (\<forall>i. 0 \<le> i \<and> (\<forall>l. 0 \<le> l \<and> l < j \<longrightarrow> \<not> in_slot p l pos i) \<longrightarrow>
                 rs_value_cache t ! nat i = rs_value_cache s ! nat i))"
  have "\<exists>t. for_loop 0 (n_layers p) (layer pos p wbuf w (head_size_of p)
                 (freq_cis_real w + (pos * head_size_of p) sdiv 2)
                 (freq_cis_imag w + (pos * head_size_of p) sdiv 2)) t0 = Some t \<and> I (n_layers p) t"
  proof (rule for_loop_rule)
    show "I 0 t0" using ok0 by (simp add: I_def t0_def)
    show "0 \<le> n_layers p" using d by simp
  next
    fix j t
    assume j: "0 \<le> j" "j < n_layers p" and inv: "I j t"
    have okt: "state_ok p t" using inv by (simp add: I_def)
    from layer_ok[OF assms(1) okt assms(3,5,6) j]
    obtain t' where t': "layer pos p wbuf w (head_size_of p)
                 (freq_cis_real w + (pos * head_size_of p) sdiv 2)
                 (freq_cis_imag w + (pos * head_size_of p) sdiv 2) j t = Some t'"
      and ok': "state_ok p t'"
      and fk: "\<forall>i. 0 \<le> i \<and> \<not> in_slot p j pos i \<longrightarrow>
                 rs_key_cache t' ! nat i = rs_key_cache t ! nat i"
      and fv: "\<forall>i. 0 \<le> i \<and> \<not> in_slot p j pos i \<longrightarrow>
                 rs_value_cache t' ! nat i = rs_value_cache t ! nat i"
      by blast
    have "I (j + 1) t'"
      unfolding I_def
    proof (intro conjI allI impI)
      show "state_ok p t'" by fact
    next
      fix i assume a: "0 \<le> i \<and> (\<forall>l. 0 \<le> l \<and> l < j + 1 \<longrightarrow> \<not> in_slot p l pos i)"
      then have "\<not> in_slot p j pos i" using j by simp
      then have "rs_key_cache t' ! nat i = rs_key_cache t ! nat i" using fk a by simp
      also have "\<dots> = rs_key_cache s ! nat i" using inv a by (simp add: I_def)
      finally show "rs_key_cache t' ! nat i = rs_key_cache s ! nat i" .
    next
      fix i assume a: "0 \<le> i \<and> (\<forall>l. 0 \<le> l \<and> l < j + 1 \<longrightarrow> \<not> in_slot p l pos i)"
      then have "\<not> in_slot p j pos i" using j by simp
      then have "rs_value_cache t' ! nat i = rs_value_cache t ! nat i" using fv a by simp
      also have "\<dots> = rs_value_cache s ! nat i" using inv a by (simp add: I_def)
      finally show "rs_value_cache t' ! nat i = rs_value_cache s ! nat i" .
    qed
    with t' show "\<exists>t'. layer pos p wbuf w (head_size_of p)
                 (freq_cis_real w + (pos * head_size_of p) sdiv 2)
                 (freq_cis_imag w + (pos * head_size_of p) sdiv 2) j t = Some t' \<and> I (j + 1) t'"
      by blast
  qed
  then obtain t where t: "for_loop 0 (n_layers p) (layer pos p wbuf w (head_size_of p)
                 (freq_cis_real w + (pos * head_size_of p) sdiv 2)
                 (freq_cis_imag w + (pos * head_size_of p) sdiv 2)) t0 = Some t"
    and It: "I (n_layers p) t" by blast
  have okt: "state_ok p t" using It by (simp add: I_def)
  obtain x' where x': "rmsnorm (rs_x t) (rs_x t) wbuf (rms_final_weight w) (dim p) = Some x'"
    and lx': "length x' = length (rs_x t)"
    using rmsnorm_ok[of "dim p" "rs_x t" "rs_x t" "rms_final_weight w" wbuf]
      okt assms(3) by (auto simp: state_ok_def weights_ok_def)
  obtain lg where lg: "matmul (rs_logits t) x' wbuf (wcls w) (dim p) (vocab_size p) = Some lg"
    and llg: "length lg = length (rs_logits t)"
    using matmul_ok[of "vocab_size p" "rs_logits t" "dim p" x' "wcls w" wbuf]
      okt assms(3) lx' by (auto simp: state_ok_def weights_ok_def)
  define t' where "t' = t\<lparr>rs_x := x', rs_logits := lg\<rparr>"
  have run: "transformer token pos p s wbuf w = Some t'"
    unfolding transformer_def
    by (simp add: hs(4) x t0_def[symmetric] t x' lg t'_def Let_def)
  have ok': "state_ok p t'" using okt lx' llg by (simp add: state_ok_def t'_def)
  have c: "rs_key_cache t' = rs_key_cache t" "rs_value_cache t' = rs_value_cache t"
    by (simp_all add: t'_def)
  show ?thesis
    using run ok' It unfolding I_def by (intro exI[of _ t']) (simp add: c)
qed

lemma transformer_runE:
  assumes "config_ok p" and "transformer token pos p s wbuf w = Some s'"
  obtains x0 sL x' lg where
    "memcpy (rs_x s) 0 wbuf (token_embedding_table w + token * dim p) (dim p) = Some x0"
    "for_loop 0 (n_layers p) (layer pos p wbuf w (head_size_of p)
        (freq_cis_real w + (pos * head_size_of p) sdiv 2)
        (freq_cis_imag w + (pos * head_size_of p) sdiv 2)) (s\<lparr>rs_x := x0\<rparr>) = Some sL"
    "rmsnorm (rs_x sL) (rs_x sL) wbuf (rms_final_weight w) (dim p) = Some x'"
    "matmul (rs_logits sL) x' wbuf (wcls w) (dim p) (vocab_size p) = Some lg"
    "s' = sL\<lparr>rs_x := x', rs_logits := lg\<rparr>"
  using assms(2) unfolding transformer_def Let_def head_size_props(4)[OF assms(1)]
  by (simp, elim bind_SomeE) auto

section \<open>The weights of a checkpoint\<close>

lemma config_ok_mul:
  assumes "config_ok p"
  shows "c_mul (vocab_size p) (dim p) = Some (vocab_size p * dim p)"
    and "c_mul (n_layers p) (dim p) = Some (n_layers p * dim p)"
    and "c_mul3 (n_layers p) (dim p) (dim p) = Some (n_layers p * dim p * dim p)"
    and "c_mul3 (n_layers p) (dim p) (hidden_dim p) = Some (n_layers p * dim p * hidden_dim p)"
    and "c_mul3 (n_layers p) (hidden_dim p) (dim p) = Some (n_layers p * hidden_dim p * dim p)"
    and "c_mul (seq_len p) (head_size_of p) = Some (seq_len p * head_size_of p)"
proof -
  note hs = head_size_props[OF assms]
  have pos: "0 < dim p" "0 < hidden_dim p" "0 < n_layers p" "0 < vocab_size p" "0 < seq_len p"
    using assms by (simp_all add: config_ok_def)
  have b: "vocab_size p * dim p \<le> 2147483647" "n_layers p * dim p * dim p \<le> 2147483647"
    "n_layers p * dim p * hidden_dim p \<le> 2147483647"
    "seq_len p * head_size_of p \<le> 2147483647"
    using assms by (simp_all add: config_ok_def)
  have "n_layers p * dim p * 1 \<le> n_layers p * dim p * dim p"
    by (intro mult_left_mono) (use pos in auto)
  then have nd: "n_layers p * dim p \<le> n_layers p * dim p * dim p" by simp
  have "n_layers p * hidden_dim p * 1 \<le> n_layers p * hidden_dim p * dim p"
    by (intro mult_left_mono) (use pos in auto)
  then have nh: "n_layers p * hidden_dim p \<le> n_layers p * hidden_dim p * dim p" by simp
  have c: "n_layers p * hidden_dim p * dim p = n_layers p * dim p * hidden_dim p"
    by (simp add: mult.assoc mult.commute)
  have nn: "0 \<le> vocab_size p * dim p" "0 \<le> n_layers p * dim p"
    "0 \<le> n_layers p * dim p * dim p" "0 \<le> n_layers p * dim p * hidden_dim p"
    "0 \<le> n_layers p * hidden_dim p" "0 \<le> seq_len p * head_size_of p"
    using pos hs(1) by simp_all
  show "c_mul (vocab_size p) (dim p) = Some (vocab_size p * dim p)"
    using b(1) nn(1) by (simp add: c_mul_def c_int_def)
  show 2: "c_mul (n_layers p) (dim p) = Some (n_layers p * dim p)"
    using b(2) nd nn(2) by (simp add: c_mul_def c_int_def)
  show "c_mul3 (n_layers p) (dim p) (dim p) = Some (n_layers p * dim p * dim p)"
    using b(2) nn(3) by (simp add: c_mul3_def 2) (simp add: c_mul_def c_int_def)
  show "c_mul3 (n_layers p) (dim p) (hidden_dim p) = Some (n_layers p * dim p * hidden_dim p)"
    using b(3) nn(4) by (simp add: c_mul3_def 2) (simp add: c_mul_def c_int_def)
  have 3: "c_mul (n_layers p) (hidden_dim p) = Some (n_layers p * hidden_dim p)"
    using b(3) nh nn(5) c by (simp add: c_mul_def c_int_def)
  show "c_mul3 (n_layers p) (hidden_dim p) (dim p) = Some (n_layers p * hidden_dim p * dim p)"
    using b(3) nn(4) by (simp add: c_mul3_def 3) (simp add: c_mul_def c_int_def c)
  show "c_mul (seq_len p) (head_size_of p) = Some (seq_len p * head_size_of p)"
    using b(4) nn(6) by (simp add: c_mul_def c_int_def)
qed

lemma init_weights_ok:
  assumes "config_ok p" "checkpoint_init_weights p 0 shared = Some w"
    and "weights_size p shared \<le> int (length wbuf)"
  shows "weights_ok p w wbuf"
    and "0 \<le> token \<Longrightarrow> token < vocab_size p \<Longrightarrow> row_ok p w wbuf token"
    and "row_ok p w wbuf 1"
proof -
  note hs = head_size_props[OF assms(1)]
  note cm = config_ok_mul[OF assms(1)]
  have pos: "0 < dim p" "0 < hidden_dim p" "0 < n_layers p" "0 < vocab_size p" "0 < seq_len p"
    using assms(1) by (simp_all add: config_ok_def)
  define A where "A = vocab_size p * dim p"
  define B where "B = n_layers p * dim p"
  define C where "C = n_layers p * dim p * dim p"
  define D where "D = n_layers p * dim p * hidden_dim p"
  define E where "E = (seq_len p * head_size_of p) sdiv 2"
  have D': "n_layers p * hidden_dim p * dim p = D" by (simp add: D_def mult.assoc mult.commute)
  have BC: "B * dim p = C" "B * hidden_dim p = D" by (simp_all add: B_def C_def D_def)
  have nn: "0 \<le> A" "0 \<le> B" "0 \<le> C" "0 \<le> D"
    using pos by (simp_all add: A_def B_def C_def D_def)
  have Amax: "A \<le> 2147483647" using assms(1) by (simp add: config_ok_def A_def)
  have "0 \<le> seq_len p * head_size_of p" using pos hs(1) by simp
  then have E0: "0 \<le> E" by (simp add: E_def sdiv_nonneg pos_imp_zdiv_nonneg_iff)
  have sz: "weights_size p shared = A + B + 4 * C + B + 3 * D + dim p + 2 * E
              + (if shared \<noteq> 0 then 0 else A)"
    by (simp add: weights_size_def A_def B_def C_def D_def E_def)
  have f: "token_embedding_table w = 0" "rms_att_weight w = A" "wq w = A + B"
    "wk w = A + B + C" "wv w = A + B + 2 * C" "wo w = A + B + 3 * C"
    "rms_ffn_weight w = A + B + 4 * C" "w1 w = A + B + 4 * C + B"
    "w2 w = A + B + 4 * C + B + D" "w3 w = A + B + 4 * C + B + 2 * D"
    "rms_final_weight w = A + B + 4 * C + B + 3 * D"
    "freq_cis_real w = A + B + 4 * C + B + 3 * D + dim p"
    "freq_cis_imag w = A + B + 4 * C + B + 3 * D + dim p + E"
    "wcls w = (if shared \<noteq> 0 then 0 else A + B + 4 * C + B + 3 * D + dim p + 2 * E)"
    using assms(2) unfolding checkpoint_init_weights_def A_def B_def C_def D_def E_def
    by (auto simp: hs(4) cm Let_def algebra_simps)
  show "weights_ok p w wbuf"
    using assms(3) nn E0 pos unfolding sz weights_ok_def f
    by (auto simp: A_def[symmetric] B_def[symmetric] C_def[symmetric]
        D_def[symmetric] E_def[symmetric] BC split: if_splits)
  show "row_ok p w wbuf token" if t: "0 \<le> token" "token < vocab_size p"
  proof -
    have tb: "0 \<le> token * dim p" "token * dim p + dim p \<le> A"
      using off1[of token "vocab_size p" "dim p"] t pos by (simp_all add: A_def)
    have "token * 1 \<le> token * dim p" by (intro mult_left_mono) (use t pos in auto)
    then have ci: "c_int token" "c_int (token * dim p)"
      using tb t pos Amax by (simp_all add: c_int_def)
    show ?thesis
      using tb ci assms(3) nn E0 pos unfolding sz row_ok_def f by (auto split: if_splits)
  qed
  have AB: "dim p \<le> A" "dim p \<le> B" using pos by (simp_all add: A_def B_def)
  show "row_ok p w wbuf 1"
    using assms(3) nn E0 pos AB Amax unfolding sz row_ok_def f
    by (auto simp: c_int_def split: if_splits)
qed

section \<open>Greedy sampling\<close>

text \<open>
  Claim C3. For every non-empty logits vector, the sampler with temperature 0 returns
  the index of the maximum value, and among several entries equal to the maximum the
  lowest index: every entry is at most the entry at the returned index, and every
  entry to its left is strictly smaller. The logits are left as they are.
\<close>

theorem sampler_temperature_zero_argmax:
  assumes "logits \<noteq> []" and "n = int (length logits)"
  shows "\<exists>i. sample_next 0 rnd rand_max logits n = Some (logits, i) \<and> 0 \<le> i \<and> i < n
           \<and> (\<forall>j. 0 \<le> j \<and> j < n \<longrightarrow> logits ! nat j \<le> logits ! nat i)
           \<and> (\<forall>j. 0 \<le> j \<and> j < i \<longrightarrow> logits ! nat j < logits ! nat i)"
proof -
  have "1 \<le> n" using assms by (cases logits) auto
  from argmax_ok[OF this, of logits] assms(2)
  show ?thesis by (auto simp: sample_next_def)
qed

theorem sampler_temperature_zero_argmax_witness:
  "[1, 3, 3, 2 :: float] \<noteq> [] \<and> (4::int) = int (length [1, 3, 3, 2 :: float])
   \<and> (\<exists>i. sample_next 0 7 10 [1, 3, 3, 2] 4 = Some ([1, 3, 3, 2], i) \<and> 0 \<le> i \<and> i < 4
         \<and> (\<forall>j. 0 \<le> j \<and> j < 4 \<longrightarrow> [1, 3, 3, 2 :: float] ! nat j \<le> [1, 3, 3, 2] ! nat i)
         \<and> (\<forall>j. 0 \<le> j \<and> j < i \<longrightarrow> [1, 3, 3, 2 :: float] ! nat j < [1, 3, 3, 2] ! nat i))"
  using sampler_temperature_zero_argmax[of "[1, 3, 3, 2]" 4 7 10] by simp

section \<open>The token and the position of a forward pass\<close>

lemmas toy_defs = toy_config_def toy_weights_def toy_zero_state_def toy_header_def
  toy_header_untied_def toy_wbuf_def

lemmas run_defs = for_loop.simps for_loop2.simps rd_def wr_def memcpy_def rmsnorm_def
  matmul_def accum_def softmax_def att_norm_def qkv_def rope_def save_kv_def attention_def
  attn_out_def ffn_def layer_def transformer_def c_div_def Let_def

lemma toy_init_weights: "checkpoint_init_weights toy_config 0 1 = Some toy_weights"
  by (simp add: checkpoint_init_weights_def toy_defs c_div_def c_mul_def c_mul3_def c_int_def
      Let_def)

lemma toy_malloc: "malloc_run_state toy_config = Some toy_zero_state"
  by (simp add: malloc_run_state_def calloc_def toy_defs numeral_eq_Suc)

lemma toy_config_ok: "config_ok toy_config"
  by (simp add: config_ok_def head_size_of_def toy_defs)

lemma toy_state_ok: "state_ok toy_config toy_zero_state"
  by (simp add: state_ok_def toy_defs)

lemma toy_weights_size: "weights_size toy_config 1 = 42"
  by (simp add: weights_size_def head_size_of_def toy_defs)
















section \<open>The checkpoint loader\<close>

lemma toy_fread: "fread_config toy_header = Some toy_config"
  by (simp add: fread_config_def le32_def toy_defs)

lemma toy_fread_untied:
  "fread_config toy_header_untied = Some (toy_config\<lparr>vocab_size := - 2\<rparr>)"
  by (simp add: fread_config_def le32_def toy_defs)


lemma init_weights_total:
  assumes "config_ok p"
  shows "\<exists>w. checkpoint_init_weights p 0 shared = Some w"
  using config_ok_mul[OF assms] head_size_props(4)[OF assms]
  by (simp add: checkpoint_init_weights_def Let_def)

lemma init_weights_wcls:
  assumes "checkpoint_init_weights p f shared = Some w"
  shows "c_int (seq_len p * head_size_of p)"
    and "wcls w = (if shared \<noteq> 0 then token_embedding_table w
                   else freq_cis_imag w + (seq_len p * head_size_of p) sdiv 2)"
  using assms
  by (auto simp: checkpoint_init_weights_def c_div_def c_mul_def head_size_of_def Let_def
      Option.bind_eq_Some_conv split: if_splits)

lemma load_Inr:
  assumes "fread_config bytes = Some hdr"
    and "load_checkpoint f32 (Some bytes) fd data_mapped ddata_mapped = Inr ck"
  shows "vocab_size hdr \<noteq> - 2147483648" and "fd \<noteq> - 1" and "data_mapped" and "ddata_mapped"
    and "ck_config ck = hdr\<lparr>vocab_size := \<bar>vocab_size hdr\<bar>\<rparr>"
    and "ck_shared_weights ck = (if vocab_size hdr > 0 then 1 else 0)"
    and "ck_file_size ck = int (length bytes)"
    and "ck_data ck = floats_of f32 (drop 28 bytes)"
    and "checkpoint_init_weights (ck_config ck) 0 (ck_shared_weights ck) = Some (ck_weights ck)"
  using assms(2)
  by (auto simp: load_checkpoint_def assms(1) c_abs_def Let_def split: if_splits option.splits)

lemma load_ok:
  assumes "fread_config bytes = Some hdr"
    and "config_ok (hdr\<lparr>vocab_size := \<bar>vocab_size hdr\<bar>\<rparr>)"
  shows "load_checkpoint f32 (Some bytes) (- 1) data_mapped ddata_mapped = Inl FdOpenFailed"
    and "fd \<noteq> - 1 \<Longrightarrow> load_checkpoint f32 (Some bytes) fd False ddata_mapped = Inl MmapFailed"
    and "fd \<noteq> - 1 \<Longrightarrow> load_checkpoint f32 (Some bytes) fd True False = Inl MmapFailed"
    and "fd \<noteq> - 1 \<Longrightarrow> \<exists>w. load_checkpoint f32 (Some bytes) fd True True
               = Inr \<lparr>ck_config = hdr\<lparr>vocab_size := \<bar>vocab_size hdr\<bar>\<rparr>,
                   ck_shared_weights = (if vocab_size hdr > 0 then 1 else 0),
                   ck_file_size = int (length bytes),
                   ck_data = floats_of f32 (drop 28 bytes), ck_weights = w\<rparr>"
proof -
  have "\<bar>vocab_size hdr\<bar> * dim hdr \<le> 2147483647" "0 < dim hdr"
    using assms(2) by (simp_all add: config_ok_def)
  then have v: "vocab_size hdr \<noteq> - 2147483648"
    using mult_left_mono[of 1 "dim hdr" "\<bar>vocab_size hdr\<bar>"] by auto
  obtain w where w: "checkpoint_init_weights (hdr\<lparr>vocab_size := \<bar>vocab_size hdr\<bar>\<rparr>) 0
      (if vocab_size hdr > 0 then 1 else 0) = Some w"
    using init_weights_total[OF assms(2)] by blast
  show "load_checkpoint f32 (Some bytes) (- 1) data_mapped ddata_mapped = Inl FdOpenFailed"
    using v by (simp add: load_checkpoint_def assms(1) c_abs_def Let_def)
  show "load_checkpoint f32 (Some bytes) fd False ddata_mapped = Inl MmapFailed" if "fd \<noteq> - 1"
    using v that by (simp add: load_checkpoint_def assms(1) c_abs_def Let_def)
  show "load_checkpoint f32 (Some bytes) fd True False = Inl MmapFailed" if "fd \<noteq> - 1"
    using v that by (simp add: load_checkpoint_def assms(1) c_abs_def Let_def)
  show "\<exists>w. load_checkpoint f32 (Some bytes) fd True True
               = Inr \<lparr>ck_config = hdr\<lparr>vocab_size := \<bar>vocab_size hdr\<bar>\<rparr>,
                   ck_shared_weights = (if vocab_size hdr > 0 then 1 else 0),
                   ck_file_size = int (length bytes),
                   ck_data = floats_of f32 (drop 28 bytes), ck_weights = w\<rparr>" if "fd \<noteq> - 1"
    using v that w by (auto simp: load_checkpoint_def assms(1) c_abs_def Let_def)
qed

lemma le32_range: "c_int (le32 bs)"
proof -
  have b: "0 \<le> uint (bs ! 0)" "uint (bs ! 0) < 256" "0 \<le> uint (bs ! 1)" "uint (bs ! 1) < 256"
    "0 \<le> uint (bs ! 2)" "uint (bs ! 2) < 256" "0 \<le> uint (bs ! 3)" "uint (bs ! 3) < 256"
    using uint_lt2p[of "bs ! 0"] uint_lt2p[of "bs ! 1"] uint_lt2p[of "bs ! 2"]
      uint_lt2p[of "bs ! 3"]
    by simp_all
  define u where "u = uint (bs ! 0) + 256 * uint (bs ! 1) + 65536 * uint (bs ! 2)
               + 16777216 * uint (bs ! 3)"
  have "0 \<le> u" "u < 4294967296" using b unfolding u_def by linarith+
  then show ?thesis
    unfolding le32_def u_def[symmetric] Let_def c_int_def by simp
qed








text \<open>
  Claim C5. For every header: if, with the absolute value of its vocabulary size, it
  is a well-formed configuration, the checkpoint loads whenever the file opens and
  maps. And whenever the checkpoint loads (the program is undefined for the
  vocabulary size \<^verbatim>\<open>INT_MIN\<close>, for a product that overflows and for an undefined
  division), the vocabulary size used from then on is the absolute value of the one
  read. When the value read is negative, \<^verbatim>\<open>wcls\<close> points behind \<^verbatim>\<open>freq_cis_imag\<close>,
  which has \<open>seq_len * head_size / 2\<close> floats, a product that fits an \<^verbatim>\<open>int\<close>. When
  it is positive, \<^verbatim>\<open>wcls\<close> is the pointer to the token embedding table, so the
  classifier product of line 344 is the product with the embedding table as a
  \<open>(vocab_size, dim)\<close> matrix.
\<close>

theorem classifier_sharing:
  assumes "fread_config bytes = Some hdr"
  shows "(config_ok (hdr\<lparr>vocab_size := \<bar>vocab_size hdr\<bar>\<rparr>) \<and> fd \<noteq> - 1 \<longrightarrow>
            (\<exists>ck. load_checkpoint f32 (Some bytes) fd True True = Inr ck))
     \<and> (\<forall>ck. load_checkpoint f32 (Some bytes) fd data_mapped ddata_mapped = Inr ck \<longrightarrow>
          vocab_size (ck_config ck) = \<bar>vocab_size hdr\<bar>
          \<and> c_int (vocab_size (ck_config ck))
          \<and> c_int (seq_len (ck_config ck) * head_size_of (ck_config ck))
          \<and> (vocab_size hdr < 0 \<longrightarrow>
               wcls (ck_weights ck) = freq_cis_imag (ck_weights ck)
                  + (seq_len (ck_config ck) * head_size_of (ck_config ck)) sdiv 2)
          \<and> (0 < vocab_size hdr \<longrightarrow>
               wcls (ck_weights ck) = token_embedding_table (ck_weights ck)
               \<and> (\<forall>xout x. matmul xout x (ck_data ck) (wcls (ck_weights ck))
                              (dim (ck_config ck)) (vocab_size (ck_config ck))
                          = matmul xout x (ck_data ck) (token_embedding_table (ck_weights ck))
                              (dim (ck_config ck)) (vocab_size (ck_config ck)))))"
proof (intro conjI impI allI)
  assume "config_ok (hdr\<lparr>vocab_size := \<bar>vocab_size hdr\<bar>\<rparr>) \<and> fd \<noteq> - 1"
  then show "\<exists>ck. load_checkpoint f32 (Some bytes) fd True True = Inr ck"
    using load_ok(4)[OF assms, of fd f32] by blast
next
  fix ck
  assume l: "load_checkpoint f32 (Some bytes) fd data_mapped ddata_mapped = Inr ck"
  note d = load_Inr[OF assms l]
  note w = init_weights_wcls[OF d(9)]
  show v: "vocab_size (ck_config ck) = \<bar>vocab_size hdr\<bar>" by (simp add: d(5))
  show "c_int (vocab_size (ck_config ck))"
  proof -
    have "vocab_size hdr = le32 (take 4 (drop 20 bytes))"
      using assms by (auto simp: fread_config_def split: if_splits)
    then have "c_int (vocab_size hdr)" by (simp add: le32_range)
    then show ?thesis using d(1) unfolding v c_int_def by linarith
  qed
  show "c_int (seq_len (ck_config ck) * head_size_of (ck_config ck))" by (rule w(1))
  show "wcls (ck_weights ck) = freq_cis_imag (ck_weights ck)
          + (seq_len (ck_config ck) * head_size_of (ck_config ck)) sdiv 2"
    if "vocab_size hdr < 0"
    using w(2) that by (simp add: d(6))
  show e: "wcls (ck_weights ck) = token_embedding_table (ck_weights ck)" if "0 < vocab_size hdr"
    using w(2) that by (simp add: d(6))
  show "matmul xout x (ck_data ck) (wcls (ck_weights ck))
                              (dim (ck_config ck)) (vocab_size (ck_config ck))
                          = matmul xout x (ck_data ck) (token_embedding_table (ck_weights ck))
                              (dim (ck_config ck)) (vocab_size (ck_config ck))"
    if "0 < vocab_size hdr" for xout x
    using e[OF that] by simp
qed

theorem classifier_sharing_witness:
  "fread_config toy_header = Some toy_config
   \<and> config_ok (toy_config\<lparr>vocab_size := \<bar>vocab_size toy_config\<bar>\<rparr>) \<and> (3::int) \<noteq> - 1
   \<and> 0 < vocab_size toy_config
   \<and> (\<exists>ck. load_checkpoint (\<lambda>b. 0) (Some toy_header) 3 True True = Inr ck
         \<and> vocab_size (ck_config ck) = 2
         \<and> wcls (ck_weights ck) = token_embedding_table (ck_weights ck))
   \<and> fread_config toy_header_untied = Some (toy_config\<lparr>vocab_size := - 2\<rparr>)
   \<and> config_ok (toy_config\<lparr>vocab_size := - 2\<rparr>
                  \<lparr>vocab_size := \<bar>vocab_size (toy_config\<lparr>vocab_size := - 2\<rparr>)\<bar>\<rparr>)
   \<and> vocab_size (toy_config\<lparr>vocab_size := - 2\<rparr>) < 0
   \<and> (\<exists>ck. load_checkpoint (\<lambda>b. 0) (Some toy_header_untied) 3 True True = Inr ck
         \<and> vocab_size (ck_config ck) = 2
         \<and> freq_cis_imag (ck_weights ck) = 40
         \<and> (seq_len (ck_config ck) * head_size_of (ck_config ck)) sdiv 2 = 2
         \<and> wcls (ck_weights ck) = 42)"
proof -
  have a: "config_ok (toy_config\<lparr>vocab_size := \<bar>vocab_size toy_config\<bar>\<rparr>)" "(3::int) \<noteq> - 1"
    "0 < vocab_size toy_config" "\<bar>vocab_size toy_config\<bar> = 2"
    by (simp_all add: config_ok_def head_size_of_def toy_defs)
  have b: "config_ok (toy_config\<lparr>vocab_size := - 2\<rparr>
                  \<lparr>vocab_size := \<bar>vocab_size (toy_config\<lparr>vocab_size := - 2\<rparr>)\<bar>\<rparr>)"
    "vocab_size (toy_config\<lparr>vocab_size := - 2\<rparr>) < 0"
    "\<bar>vocab_size (toy_config\<lparr>vocab_size := - 2\<rparr>)\<bar> = 2"
    by (simp_all add: config_ok_def head_size_of_def toy_defs)
  note t1 = classifier_sharing[OF toy_fread, of 3 "\<lambda>b. 0" True True]
  from t1 a(1,2) obtain ck1 where
    ck1: "load_checkpoint (\<lambda>b. 0) (Some toy_header) 3 True True = Inr ck1" by blast
  from t1 ck1 a(3) have p1: "vocab_size (ck_config ck1) = \<bar>vocab_size toy_config\<bar>"
    "wcls (ck_weights ck1) = token_embedding_table (ck_weights ck1)"
    by blast+
  note t2 = classifier_sharing[OF toy_fread_untied, of 3 "\<lambda>b. 0" True True]
  from t2 b(1) a(2) obtain ck2 where
    ck2: "load_checkpoint (\<lambda>b. 0) (Some toy_header_untied) 3 True True = Inr ck2" by blast
  from t2 ck2 b(2) have p2: "vocab_size (ck_config ck2) = \<bar>vocab_size (toy_config\<lparr>vocab_size := - 2\<rparr>)\<bar>"
    "wcls (ck_weights ck2) = freq_cis_imag (ck_weights ck2)
        + (seq_len (ck_config ck2) * head_size_of (ck_config ck2)) sdiv 2"
    by blast+
  note d2 = load_Inr[OF toy_fread_untied ck2]
  have c2: "ck_config ck2 = toy_config" using d2(5) by (simp add: toy_defs)
  have s2: "ck_shared_weights ck2 = 0" using d2(6) by simp
  have "checkpoint_init_weights toy_config 0 0 = Some (toy_weights\<lparr>wcls := 42\<rparr>)"
    by (simp add: checkpoint_init_weights_def toy_defs c_div_def c_mul_def c_mul3_def
        c_int_def Let_def)
  then have "ck_weights ck2 = toy_weights\<lparr>wcls := 42\<rparr>"
    using d2(9) unfolding c2 s2 by simp
  then have f2: "freq_cis_imag (ck_weights ck2) = 40" by (simp add: toy_defs)
  have e2: "(seq_len (ck_config ck2) * head_size_of (ck_config ck2)) sdiv 2 = 2"
    unfolding c2 by (simp add: head_size_of_def toy_defs)
  have 1: "\<exists>ck. load_checkpoint (\<lambda>b. 0) (Some toy_header) 3 True True = Inr ck
         \<and> vocab_size (ck_config ck) = 2
         \<and> wcls (ck_weights ck) = token_embedding_table (ck_weights ck)"
    using ck1 p1 unfolding a(4) by blast
  have 2: "\<exists>ck. load_checkpoint (\<lambda>b. 0) (Some toy_header_untied) 3 True True = Inr ck
         \<and> vocab_size (ck_config ck) = 2
         \<and> freq_cis_imag (ck_weights ck) = 40
         \<and> (seq_len (ck_config ck) * head_size_of (ck_config ck)) sdiv 2 = 2
         \<and> wcls (ck_weights ck) = 42"
    using ck2 p2 f2 e2 unfolding b(3) by auto
  show ?thesis
    using toy_fread a(1,2,3) 1 toy_fread_untied b(1,2) 2 by blast
qed


section \<open>The projections of a layer\<close>

text \<open>
  \<^verbatim>\<open>matmul\<close> computes the matrix-vector product of the specification: the row sums
  are accumulated from left to right, starting from 0.
\<close>

lemma matmul_row_sum:
  assumes "0 \<le> i" "i < d" "0 \<le> n" "n \<le> int (length xin)"
    and "0 \<le> woff" "woff + d * n \<le> int (length wbuf)"
  shows "for_loop 0 n (\<lambda>j val. do {
           wij \<leftarrow> rd wbuf (woff + (i * n + j));
           xj \<leftarrow> rd xin j;
           Some (val + wij * xj)
         }) (0::float)
       = Some (\<Sum>j = 0..<nat n. wbuf ! nat (woff + (i * n + int j)) * xin ! j)"
proof -
  define I where "I = (\<lambda>(j::int) (val::float).
     val = (\<Sum>j' = 0..<nat j. wbuf ! nat (woff + (i * n + int j')) * xin ! j'))"
  have "\<exists>val. for_loop 0 n (\<lambda>j val. do {
           wij \<leftarrow> rd wbuf (woff + (i * n + j));
           xj \<leftarrow> rd xin j;
           Some (val + wij * xj)
         }) (0::float) = Some val \<and> I n val"
  proof (rule for_loop_rule)
    show "I 0 0" by (simp add: I_def)
    show "0 \<le> n" by fact
  next
    fix j and u :: float
    assume j: "0 \<le> j" "j < n" and inv: "I j u"
    have b: "0 \<le> woff + (i * n + j)" "woff + (i * n + j) < int (length wbuf)"
      using row_idx_bound[of i d j n] assms j by auto
    have n1: "nat (j + 1) = Suc (nat j)" using j by simp
    show "\<exists>t'. do {
           wij \<leftarrow> rd wbuf (woff + (i * n + j));
           xj \<leftarrow> rd xin j;
           Some (u + wij * xj)
         } = Some t' \<and> I (j + 1) t'"
      using inv j b assms unfolding I_def by (simp add: rd_def n1)
  qed
  then show ?thesis by (auto simp: I_def)
qed

lemma matmul_matvec:
  assumes "0 \<le> n" "0 \<le> d" "int (length xout) = d" "n \<le> int (length xin)"
    and "0 \<le> woff" "woff + d * n \<le> int (length wbuf)"
  shows "matmul xout xin wbuf woff n d = Some (matvec wbuf woff d n xin)"
proof -
  define row where "row = (\<lambda>i::int. \<Sum>j = 0..<nat n. wbuf ! nat (woff + (i * n + int j)) * xin ! j)"
  define I where "I = (\<lambda>(i::int) (r::float list). length r = length xout
     \<and> (\<forall>i'. 0 \<le> i' \<and> i' < i \<longrightarrow> r ! nat i' = row i'))"
  have "\<exists>r. matmul xout xin wbuf woff n d = Some r \<and> I d r"
    unfolding matmul_def
  proof (rule for_loop_rule)
    show "I 0 xout" by (simp add: I_def)
    show "0 \<le> d" by fact
  next
    fix i t
    assume i: "0 \<le> i" "i < d" and inv: "I i t"
    have split: "\<And>k. k < i + 1 \<longleftrightarrow> k < i \<or> k = i" by auto
    show "\<exists>t'. do {
       val \<leftarrow> for_loop 0 n (\<lambda>j val. do {
           wij \<leftarrow> rd wbuf (woff + (i * n + j));
           xj \<leftarrow> rd xin j;
           Some (val + wij * xj)
         }) 0;
       wr t i val
     } = Some t' \<and> I (i + 1) t'"
      using inv i assms(3) unfolding I_def
      by (auto simp: matmul_row_sum[OF i assms(1,4,5,6)] wr_def row_def split
          nth_list_update eq_nat_nat_iff)
  qed
  then obtain r where r: "matmul xout xin wbuf woff n d = Some r" and Ir: "I d r" by blast
  have "r = matvec wbuf woff d n xin"
  proof (rule nth_equalityI)
    show "length r = length (matvec wbuf woff d n xin)"
      using Ir assms(3) by (simp add: I_def matvec_def)
  next
    fix k assume "k < length r"
    then have k: "int k < d" using Ir assms(3) by (simp add: I_def)
    have "0 \<le> int k \<and> int k < d \<longrightarrow> r ! nat (int k) = row (int k)"
      using Ir unfolding I_def by blast
    then have "r ! nat (int k) = row (int k)" using k by simp
    moreover have "matvec wbuf woff d n xin ! k = row (int k)"
      using k by (simp add: matvec_def row_def)
    ultimately show "r ! k = matvec wbuf woff d n xin ! k" by simp
  qed
  with r show ?thesis by simp
qed

text \<open>
  Claim C8 says that the key vector is \<open>k = Wv\<cdot>xb\<close>. Line 245 multiplies with
  \<^verbatim>\<open>wk\<close>. With \<^verbatim>\<open>wk\<close> twice and \<^verbatim>\<open>wv\<close> three times the identity and
  \<open>xb = [1, 0]\<close>, the key is \<open>[2, 0]\<close> while \<open>Wv\<cdot>xb\<close> is \<open>[3, 0]\<close>.
\<close>

theorem qkv_key_uses_wk:
  "qkv toy_config toy_wbuf toy_weights 0 (toy_zero_state\<lparr>rs_xb := [1, 0]\<rparr>)
     = Some (toy_zero_state\<lparr>rs_xb := [1, 0], rs_q := [1, 0], rs_k := [2, 0], rs_v := [3, 0]\<rparr>)
   \<and> matvec toy_wbuf (wv toy_weights + 0 * dim toy_config * dim toy_config)
        (dim toy_config) (dim toy_config) [1, 0] = [3, 0]"
  by (simp add: qkv_def matmul_def for_loop.simps rd_def wr_def toy_defs matvec_def
      nth_append numeral_eq_Suc)

text \<open>
  Claim C8, amended. For every layer \<open>l\<close>, lines 244 to 246 compute the query, the
  key and the value as the matrix-vector products \<open>q = Wq\<cdot>xb\<close>, \<open>k = Wk\<cdot>xb\<close>
  and \<open>v = Wv\<cdot>xb\<close> of the layer's projection matrices with the normalized
  residual \<open>xb\<close>.
\<close>

theorem qkv_projections:
  assumes "config_ok p" and "state_ok p s" and "weights_ok p w wbuf"
    and "0 \<le> l" and "l < n_layers p"
  shows "qkv p wbuf w l s = Some (s\<lparr>
      rs_q := matvec wbuf (wq w + l * dim p * dim p) (dim p) (dim p) (rs_xb s),
      rs_k := matvec wbuf (wk w + l * dim p * dim p) (dim p) (dim p) (rs_xb s),
      rs_v := matvec wbuf (wv w + l * dim p * dim p) (dim p) (dim p) (rs_xb s)\<rparr>)"
proof -
  have d: "0 \<le> dim p" using assms(1) by (simp add: config_ok_def)
  note o2 = off2[OF assms(4,5) d d]
  have q: "matmul (rs_q s) (rs_xb s) wbuf (wq w + l * dim p * dim p) (dim p) (dim p)
             = Some (matvec wbuf (wq w + l * dim p * dim p) (dim p) (dim p) (rs_xb s))"
    by (rule matmul_matvec) (use assms(2,3) o2 d in \<open>auto simp: state_ok_def weights_ok_def\<close>)
  have k: "matmul (rs_k s) (rs_xb s) wbuf (wk w + l * dim p * dim p) (dim p) (dim p)
             = Some (matvec wbuf (wk w + l * dim p * dim p) (dim p) (dim p) (rs_xb s))"
    by (rule matmul_matvec) (use assms(2,3) o2 d in \<open>auto simp: state_ok_def weights_ok_def\<close>)
  have v: "matmul (rs_v s) (rs_xb s) wbuf (wv w + l * dim p * dim p) (dim p) (dim p)
             = Some (matvec wbuf (wv w + l * dim p * dim p) (dim p) (dim p) (rs_xb s))"
    by (rule matmul_matvec) (use assms(2,3) o2 d in \<open>auto simp: state_ok_def weights_ok_def\<close>)
  show ?thesis
    unfolding qkv_def by (simp add: q k v)
qed

theorem qkv_projections_witness:
  "config_ok toy_config \<and> state_ok toy_config (toy_zero_state\<lparr>rs_xb := [1, 0]\<rparr>)
   \<and> weights_ok toy_config toy_weights toy_wbuf \<and> (0::int) \<le> 0 \<and> 0 < n_layers toy_config
   \<and> qkv toy_config toy_wbuf toy_weights 0 (toy_zero_state\<lparr>rs_xb := [1, 0]\<rparr>)
       = Some (toy_zero_state\<lparr>rs_xb := [1, 0],
           rs_q := matvec toy_wbuf (wq toy_weights + 0 * dim toy_config * dim toy_config)
                     (dim toy_config) (dim toy_config) [1, 0],
           rs_k := matvec toy_wbuf (wk toy_weights + 0 * dim toy_config * dim toy_config)
                     (dim toy_config) (dim toy_config) [1, 0],
           rs_v := matvec toy_wbuf (wv toy_weights + 0 * dim toy_config * dim toy_config)
                     (dim toy_config) (dim toy_config) [1, 0]\<rparr>)"
proof -
  have ok: "state_ok toy_config (toy_zero_state\<lparr>rs_xb := [1, 0]\<rparr>)"
    by (simp add: state_ok_def toy_defs)
  have w: "weights_ok toy_config toy_weights toy_wbuf"
    by (simp add: weights_ok_def head_size_of_def toy_defs)
  have l: "(0::int) \<le> 0" "0 < n_layers toy_config" by (simp_all add: toy_defs)
  show ?thesis
    using qkv_projections[OF toy_config_ok ok w l] toy_config_ok ok w l by simp
qed


section \<open>Stochastic sampling\<close>

lemma scale_ok:
  fixes logits :: "float list"
  assumes "n = int (length logits)"
  shows "for_loop 0 n (\<lambda>q logits. do {
           lq \<leftarrow> rd logits q;
           wr logits q (lq / temperature)
         }) logits = Some (map (\<lambda>a. a / temperature) logits)"
proof -
  define I where "I = (\<lambda>(j::int) (r::float list). length r = length logits
     \<and> (\<forall>k. 0 \<le> k \<and> k < j \<longrightarrow> r ! nat k = logits ! nat k / temperature)
     \<and> (\<forall>k. j \<le> k \<and> k < n \<longrightarrow> r ! nat k = logits ! nat k))"
  have "\<exists>r. for_loop 0 n (\<lambda>q logits. do {
           lq \<leftarrow> rd logits q;
           wr logits q (lq / temperature)
         }) logits = Some r \<and> I n r"
  proof (rule for_loop_rule)
    show "I 0 logits" by (simp add: I_def)
    show "0 \<le> n" using assms by simp
  next
    fix j t
    assume j: "0 \<le> j" "j < n" and inv: "I j t"
    have split: "\<And>k. k < j + 1 \<longleftrightarrow> k < j \<or> k = j" by auto
    show "\<exists>t'. do {
           lq \<leftarrow> rd t j;
           wr t j (lq / temperature)
         } = Some t' \<and> I (j + 1) t'"
      using inv j assms unfolding I_def
      by (auto simp: rd_def wr_def split nth_list_update eq_nat_nat_iff)
  qed
  then obtain r where r: "for_loop 0 n (\<lambda>q logits. do {
           lq \<leftarrow> rd logits q;
           wr logits q (lq / temperature)
         }) logits = Some r" and Ir: "I n r" by blast
  have "r = map (\<lambda>a. a / temperature) logits"
  proof (rule nth_equalityI)
    show "length r = length (map (\<lambda>a. a / temperature) logits)"
      using Ir by (simp add: I_def)
  next
    fix k assume "k < length r"
    then have k: "int k < n" using Ir assms by (simp add: I_def)
    have "0 \<le> int k \<and> int k < n \<longrightarrow> r ! nat (int k) = logits ! nat (int k) / temperature"
      using Ir unfolding I_def by blast
    then show "r ! k = map (\<lambda>a. a / temperature) logits ! k"
      using k assms by simp
  qed
  with r show ?thesis by simp
qed

lemma sample_ok:
  assumes "1 \<le> n" "n \<le> int (length ps)"
  shows "\<exists>i. sample rnd rand_max ps n = Some i \<and> 0 \<le> i \<and> i < n
     \<and> ((rand_unit rnd rand_max < cumsum ps i
           \<and> (\<forall>j. 0 \<le> j \<and> j < i \<longrightarrow> \<not> rand_unit rnd rand_max < cumsum ps j))
         \<or> (i = n - 1 \<and> (\<forall>j. 0 \<le> j \<and> j < n \<longrightarrow> \<not> rand_unit rnd rand_max < cumsum ps j)))"
proof -
  define r where "r = rand_unit rnd rand_max"
  define I where "I = (\<lambda>(j::int) (st :: float \<times> int option).
     case snd st of
       None \<Rightarrow> fst st = (\<Sum>k = 0..<nat j. ps ! k)
                \<and> (\<forall>k. 0 \<le> k \<and> k < j \<longrightarrow> \<not> r < cumsum ps k)
     | Some i \<Rightarrow> 0 \<le> i \<and> i < j \<and> r < cumsum ps i
                \<and> (\<forall>k. 0 \<le> k \<and> k < i \<longrightarrow> \<not> r < cumsum ps k))"
  have "\<exists>st. for_loop 0 n (\<lambda>i (cdf, ret).
           case ret of
             Some _ \<Rightarrow> Some (cdf, ret)
           | None \<Rightarrow> do {
               p_i \<leftarrow> rd ps i;
               let cdf = cdf + p_i;
               Some (cdf, if r < cdf then Some i else None)
             }) (0, None) = Some st \<and> I n st"
  proof (rule for_loop_rule)
    show "I 0 (0, None)" by (simp add: I_def)
    show "0 \<le> n" using assms by simp
  next
    fix j and st :: "float \<times> int option"
    assume j: "0 \<le> j" "j < n" and inv: "I j st"
    obtain cdf ret where st: "st = (cdf, ret)" by (cases st)
    have split: "\<And>k. k < j + 1 \<longleftrightarrow> k < j \<or> k = j" by auto
    have n1: "nat (j + 1) = Suc (nat j)" using j by simp
    show "\<exists>t'. (case st of (cdf, ret) \<Rightarrow>
           case ret of
             Some _ \<Rightarrow> Some (cdf, ret)
           | None \<Rightarrow> do {
               p_i \<leftarrow> rd ps j;
               let cdf = cdf + p_i;
               Some (cdf, if r < cdf then Some j else None)
             }) = Some t' \<and> I (j + 1) t'"
    proof (cases ret)
      case (Some i)
      then show ?thesis using inv unfolding st I_def by auto
    next
      case None
      have rdj: "rd ps j = Some (ps ! nat j)" using j assms by (simp add: rd_def)
      have c: "cdf + ps ! nat j = cumsum ps j"
        "sum ((!) ps) {0..<nat j} + ps ! nat j = cumsum ps j"
        "sum ((!) ps) {0..<nat (j + 1)} = cumsum ps j"
        using inv None unfolding st I_def by (simp_all add: cumsum_def n1)
      have le: "\<And>k. k \<le> j \<longleftrightarrow> k < j \<or> k = j" by auto
      show ?thesis
        using inv None j unfolding st I_def
        by (auto simp: rdj Let_def c split le)
    qed
  qed
  then obtain cdf ret where l: "for_loop 0 n (\<lambda>i (cdf, ret).
           case ret of
             Some _ \<Rightarrow> Some (cdf, ret)
           | None \<Rightarrow> do {
               p_i \<leftarrow> rd ps i;
               let cdf = cdf + p_i;
               Some (cdf, if r < cdf then Some i else None)
             }) (0, None) = Some (cdf, ret)" and inv: "I n (cdf, ret)"
    by (metis surj_pair)
  have res: "sample rnd rand_max ps n = Some (case ret of Some i \<Rightarrow> i | None \<Rightarrow> n - 1)"
    unfolding sample_def Let_def r_def[symmetric] by (simp add: l[unfolded Let_def])
  show ?thesis
  proof (cases ret)
    case None
    then show ?thesis
      using res inv assms unfolding I_def r_def[symmetric] by auto
  next
    case (Some i)
    then show ?thesis
      using res inv assms unfolding I_def r_def[symmetric] by auto
  qed
qed

lemma rand_unit_range:
  assumes "0 \<le> rnd" "rnd \<le> rand_max" "0 < rand_max"
  shows "0 \<le> rand_unit rnd rand_max" "rand_unit rnd rand_max \<le> 1"
  using assms by (simp_all add: rand_unit_def)


text \<open>
  Claim C4 says that the random value lies in \<open>[0,1)\<close> and speaks of every logits
  vector. \<^verbatim>\<open>rand()\<close> returns values up to \<^verbatim>\<open>RAND_MAX\<close> included, and then line 349
  gives exactly 1. For the empty vector \<^verbatim>\<open>softmax\<close> reads \<^verbatim>\<open>x[0]\<close> outside the
  buffer, and no index is returned.
\<close>

theorem sampler_draw_closed_interval:
  "rand_unit 2147483647 2147483647 = 1
   \<and> sample_next 1 0 2147483647 [] 0 = None"
  by (simp add: rand_unit_def sample_next_def softmax_def rd_def for_loop.simps)

text \<open>
  Claim C4, amended. For every non-empty logits vector and every temperature
  \<open>> 0\<close>, the sampler divides each logit by the temperature, applies \<^verbatim>\<open>softmax\<close>,
  takes the random value \<open>r = rand() / RAND_MAX\<close>, which lies in \<open>[0,1]\<close>, and
  returns the first index whose cumulative probability sum exceeds \<open>r\<close>; if no
  index does, it returns the last index \<open>n - 1\<close>. The returned index lies in
  \<open>[0, n)\<close>.
\<close>

theorem sampler_stochastic:
  assumes "logits \<noteq> []" and "n = int (length logits)" and "0 < temperature"
    and "0 \<le> rnd" and "rnd \<le> rand_max" and "0 < rand_max"
  shows "\<exists>probs i. softmax (map (\<lambda>a. a / temperature) logits) 0 n = Some probs
     \<and> sample_next temperature rnd rand_max logits n = Some (probs, i)
     \<and> 0 \<le> rand_unit rnd rand_max \<and> rand_unit rnd rand_max \<le> 1
     \<and> 0 \<le> i \<and> i < n
     \<and> ((rand_unit rnd rand_max < cumsum probs i
           \<and> (\<forall>j. 0 \<le> j \<and> j < i \<longrightarrow> \<not> rand_unit rnd rand_max < cumsum probs j))
         \<or> (i = n - 1
           \<and> (\<forall>j. 0 \<le> j \<and> j < n \<longrightarrow> \<not> rand_unit rnd rand_max < cumsum probs j)))"
proof -
  have n1: "1 \<le> n" using assms(1,2) by (cases logits) auto
  obtain probs where p: "softmax (map (\<lambda>a. a / temperature) logits) 0 n = Some probs"
    and lp: "length probs = length (map (\<lambda>a. a / temperature) logits)"
    using softmax_ok[of 0 n "map (\<lambda>a. a / temperature) logits"] n1 assms(2) by auto
  have "n \<le> int (length probs)" using lp assms(2) by simp
  from sample_ok[OF n1 this, of rnd rand_max]
  obtain i where i: "sample rnd rand_max probs n = Some i" "0 \<le> i" "i < n"
    "(rand_unit rnd rand_max < cumsum probs i
           \<and> (\<forall>j. 0 \<le> j \<and> j < i \<longrightarrow> \<not> rand_unit rnd rand_max < cumsum probs j))
         \<or> (i = n - 1
           \<and> (\<forall>j. 0 \<le> j \<and> j < n \<longrightarrow> \<not> rand_unit rnd rand_max < cumsum probs j))"
    by blast
  have run: "sample_next temperature rnd rand_max logits n = Some (probs, i)"
    using assms(3) p i(1) by (simp add: sample_next_def scale_ok[OF assms(2)])
  show ?thesis
    using p run i(2,3,4) rand_unit_range[OF assms(4,5,6)] by blast
qed

theorem sampler_stochastic_witness:
  "[0, 0 :: float] \<noteq> [] \<and> (2::int) = int (length [0, 0 :: float]) \<and> (0::float) < 1
   \<and> (0::int) \<le> 1 \<and> (1::int) \<le> 4 \<and> (0::int) < 4
   \<and> (\<exists>probs i. softmax (map (\<lambda>a. a / 1) [0, 0]) 0 2 = Some probs
     \<and> sample_next 1 1 4 [0, 0] 2 = Some (probs, i)
     \<and> 0 \<le> rand_unit 1 4 \<and> rand_unit 1 4 \<le> 1
     \<and> 0 \<le> i \<and> i < 2
     \<and> ((rand_unit 1 4 < cumsum probs i
           \<and> (\<forall>j. 0 \<le> j \<and> j < i \<longrightarrow> \<not> rand_unit 1 4 < cumsum probs j))
         \<or> (i = 2 - 1
           \<and> (\<forall>j. 0 \<le> j \<and> j < 2 \<longrightarrow> \<not> rand_unit 1 4 < cumsum probs j))))"
  using sampler_stochastic[of "[0, 0]" 2 1 1 4] by simp


section \<open>The generation loop runs to its end\<close>







lemma clamp_steps_le: "clamp_steps steps p \<le> seq_len p"
  by (simp add: clamp_steps_def)



section \<open>The calls of the loop are in range\<close>

lemma argmax_range:
  assumes "argmax v n = Some i" "1 \<le> n"
  shows "0 \<le> i \<and> i < n"
proof -
  from assms(1) obtain v0 mp where
    l: "for_loop 1 n (\<lambda>i (max_i, max_p). do {
         vi \<leftarrow> rd v i;
         Some (if vi > max_p then (i, vi) else (max_i, max_p))
       }) (0, v0) = Some (i, mp)"
    by (auto simp: argmax_def Option.bind_eq_Some_conv)
  have "0 \<le> fst (i, mp) \<and> fst (i, mp) < n"
    apply (rule for_loop_partial[OF l, where I = "\<lambda>st. 0 \<le> fst st \<and> fst st < n"])
    using assms(2) by (auto simp: Option.bind_eq_Some_conv split: if_splits)
  then show ?thesis by simp
qed

lemma sample_range:
  assumes "sample rnd rand_max ps n = Some i" "1 \<le> n"
  shows "0 \<le> i \<and> i < n"
proof -
  define r where "r = rand_unit rnd rand_max"
  from assms(1) obtain cdf ret where
    l: "for_loop 0 n (\<lambda>i (cdf, ret).
           case ret of
             Some _ \<Rightarrow> Some (cdf, ret)
           | None \<Rightarrow> do {
               p_i \<leftarrow> rd ps i;
               Some (cdf + p_i, if r < cdf + p_i then Some i else None)
             }) (0, None) = Some (cdf, ret)"
    and i: "i = (case ret of Some i \<Rightarrow> i | None \<Rightarrow> n - 1)"
    unfolding sample_def Let_def r_def[symmetric]
    by (auto simp: Option.bind_eq_Some_conv)
  have "case snd (cdf, ret) of Some k \<Rightarrow> 0 \<le> k \<and> k < n | None \<Rightarrow> True"
    apply (rule for_loop_partial[OF l,
        where I = "\<lambda>st. case snd st of Some k \<Rightarrow> 0 \<le> k \<and> k < n | None \<Rightarrow> True"])
    by (auto simp: Option.bind_eq_Some_conv split: if_splits option.splits)
  then show ?thesis
    using i assms(2) by (cases ret) auto
qed

lemma sample_next_range:
  assumes "sample_next temperature rnd rand_max logits n = Some (lg, i)" "1 \<le> n"
  shows "0 \<le> i \<and> i < n"
  using assms argmax_range[of logits n i] 
  by (auto simp: sample_next_def Option.bind_eq_Some_conv split: if_splits
      dest: sample_range)

lemma gen_step_range:
  assumes "gen_step temperature rnd rand_max p wbuf w vocab g = Some g'" "1 \<le> vocab_size p"
  shows "0 \<le> gs_token g' \<and> gs_token g' < vocab_size p \<and> gs_pos g' = gs_pos g + 1"
  using assms
  by (auto simp: gen_step_def Option.bind_eq_Some_conv dest: sample_next_range)

lemma loop_head_inv:
  assumes "loop_head temperature rnd rand_max p wbuf w vocab steps g" "2 \<le> vocab_size p"
  shows "0 \<le> gs_pos g \<and> 0 \<le> gs_token g \<and> gs_token g < vocab_size p"
  using assms
proof (induction rule: loop_head.induct)
  case (start state)
  then show ?case by simp
next
  case (step g g')
  then show ?case
    using gen_step_range[of temperature rnd rand_max p wbuf w vocab g g'] by simp
qed

lemma toy_step:
  "gen_step 0 (\<lambda>k. 0) 1 toy_config (replicate 42 0) toy_weights [''a'', ''b'']
     \<lparr>gs_token = 1, gs_pos = 0, gs_state = toy_zero_state, gs_rand = 0, gs_out = []\<rparr>
   = Some \<lparr>gs_token = 0, gs_pos = 1, gs_state = toy_zero_state\<lparr>rs_att := [1, 0]\<rparr>,
       gs_rand = 0, gs_out = [''a'']\<rparr>"
  by (simp add: gen_step_def sample_next_def argmax_def run_defs toy_defs)

text \<open>
  Claim C10. With \<open>vocab_size \<ge> 2\<close> and the clamped step count, every state at the
  head of the loop from which the body is entered has \<open>0 \<le> pos < seq_len\<close> and
  \<open>0 \<le> token < vocab_size\<close>; these are the arguments of the call of
  \<^verbatim>\<open>transformer\<close> in the body. Nothing is assumed of the weights or of the buffers.
\<close>

theorem generation_calls_in_range:
  assumes "2 \<le> vocab_size p"
    and "loop_head temperature rnd rand_max p wbuf w vocab (clamp_steps steps p) g"
    and "gs_pos g < clamp_steps steps p"
  shows "0 \<le> gs_pos g \<and> gs_pos g < seq_len p \<and> 0 \<le> gs_token g \<and> gs_token g < vocab_size p"
  using loop_head_inv[OF assms(2,1)] assms(3) clamp_steps_le[of steps p] by simp

theorem generation_calls_in_range_witness:
  "2 \<le> vocab_size toy_config
   \<and> loop_head 0 (\<lambda>k. 0) 1 toy_config (replicate 42 0) toy_weights [''a'', ''b'']
       (clamp_steps 0 toy_config)
       \<lparr>gs_token = 0, gs_pos = 1, gs_state = toy_zero_state\<lparr>rs_att := [1, 0]\<rparr>,
          gs_rand = 0, gs_out = [''a'']\<rparr>
   \<and> (1::int) < clamp_steps 0 toy_config
   \<and> (0::int) \<le> 1 \<and> 1 < seq_len toy_config \<and> (0::int) \<le> 0 \<and> 0 < vocab_size toy_config"
proof -
  have v: "2 \<le> vocab_size toy_config" by (simp add: toy_defs)
  have c: "clamp_steps 0 toy_config = 2" by (simp add: clamp_steps_def toy_defs)
  have h0: "loop_head 0 (\<lambda>k. 0) 1 toy_config (replicate 42 0) toy_weights [''a'', ''b'']
       (clamp_steps 0 toy_config)
       \<lparr>gs_token = 1, gs_pos = 0, gs_state = toy_zero_state, gs_rand = 0, gs_out = []\<rparr>"
    by (rule loop_head.start[OF toy_malloc])
  have h1: "loop_head 0 (\<lambda>k. 0) 1 toy_config (replicate 42 0) toy_weights [''a'', ''b'']
       (clamp_steps 0 toy_config)
       \<lparr>gs_token = 0, gs_pos = 1, gs_state = toy_zero_state\<lparr>rs_att := [1, 0]\<rparr>,
          gs_rand = 0, gs_out = [''a'']\<rparr>"
    by (rule loop_head.step[OF h0 _ toy_step]) (simp add: c)
  have lt: "gs_pos \<lparr>gs_token = 0, gs_pos = 1, gs_state = toy_zero_state\<lparr>rs_att := [1, 0]\<rparr>,
          gs_rand = 0, gs_out = [''a'']\<rparr> < clamp_steps 0 toy_config"
    by (simp add: c)
  show ?thesis
    using generation_calls_in_range[OF v h1 lt] v h1 c by simp
qed

section \<open>The cache slots\<close>

























section \<open>Two runs of the forward pass\<close>

text \<open>
  What a forward pass leaves in a buffer does not depend on what the buffer held
  before, if the two runs of the pass from two run states give the same content.
  The rule below relates two runs of a loop, the blocks that overwrite their output
  are compared first, then the stages, the layer and the whole pass.
\<close>

lemma for_loop_rel:
  assumes "for_loop i n body s = Some s'" and "for_loop i n body' t = Some t'"
    and "R i s t" and "i \<le> n"
    and "\<And>j u v u' v'. i \<le> j \<Longrightarrow> j < n \<Longrightarrow> R j u v \<Longrightarrow> body j u = Some u'
           \<Longrightarrow> body' j v = Some v' \<Longrightarrow> R (j + 1) u' v'"
  shows "R n s' t'"
  using assms
proof (induction i n body s arbitrary: t rule: for_loop.induct)
  case (1 i n body s)
  show ?case
  proof (cases "i < n")
    case True
    from "1.prems"(1) True obtain u where u: "body i s = Some u"
      and ru: "for_loop (i + 1) n body u = Some s'"
      by (subst (asm) for_loop.simps) (auto simp: Option.bind_eq_Some_conv)
    from "1.prems"(2) True obtain v where v: "body' i t = Some v"
      and rv: "for_loop (i + 1) n body' v = Some t'"
      by (subst (asm) for_loop.simps) (auto simp: Option.bind_eq_Some_conv)
    have Ruv: "R (i + 1) u v" using "1.prems"(5)[of i s t u v] True "1.prems"(3) u v by simp
    show ?thesis
    proof (rule "1.IH"[OF True u ru rv Ruv])
      show "i + 1 \<le> n" using True by simp
    next
      fix j a b a' b'
      assume "i + 1 \<le> j" "j < n" "R j a b" "body j a = Some a'" "body' j b = Some b'"
      then show "R (j + 1) a' b'" using "1.prems"(5)[of j a b a' b'] by simp
    qed
  next
    case False
    with "1.prems"(4) have "i = n" by simp
    then show ?thesis
      using "1.prems"(1,2,3) by (subst (asm) (1 2) for_loop.simps) simp
  qed
qed

lemma prefix_eqI:
  assumes "length u = length v" "int (length u) = n"
    and "\<forall>k. 0 \<le> k \<and> k < n \<longrightarrow> u ! nat k = v ! nat k"
  shows "u = v"
proof (rule nth_equalityI)
  show "length u = length v" by fact
next
  fix k assume "k < length u"
  then have "0 \<le> int k \<and> int k < n" using assms(2) by simp
  then have "u ! nat (int k) = v ! nat (int k)" using assms(3) by blast
  then show "u ! k = v ! k" by simp
qed

lemma rmsnorm_indep:
  assumes "rmsnorm out xin wbuf weight sz = Some r" and "rmsnorm out' xin wbuf weight sz = Some r'"
    and "length out = length out'" and "int (length out) = sz"
  shows "r = r'"
proof -
  from assms(1) obtain ss where
    l: "for_loop 0 sz (\<lambda>j out. do {
         wj \<leftarrow> rd wbuf (weight + j);
         xj \<leftarrow> rd xin j;
         wr out j (wj * (1 / sqrt (ss / real_of_int sz + 1 / 100000) * xj))
       }) out = Some r"
    and s: "for_loop 0 sz (\<lambda>j ss. do {
         xj \<leftarrow> rd xin j;
         Some (ss + xj * xj)
       }) 0 = Some ss"
    unfolding rmsnorm_def Let_def by (auto simp: Option.bind_eq_Some_conv)
  from assms(2) s have
    l': "for_loop 0 sz (\<lambda>j out. do {
         wj \<leftarrow> rd wbuf (weight + j);
         xj \<leftarrow> rd xin j;
         wr out j (wj * (1 / sqrt (ss / real_of_int sz + 1 / 100000) * xj))
       }) out' = Some r'"
    unfolding rmsnorm_def Let_def by (auto simp: Option.bind_eq_Some_conv)
  define R where "R = (\<lambda>(j::int) (u::float list) (v::float list).
     length u = length out \<and> length v = length out
     \<and> (\<forall>k. 0 \<le> k \<and> k < j \<longrightarrow> u ! nat k = v ! nat k))"
  have "R sz r r'"
  proof (rule for_loop_rel[OF l l'])
    show "R 0 out out'" using assms(3) by (simp add: R_def)
    show "0 \<le> sz" using assms(4) by simp
  next
    fix j u v u' v'
    assume j: "0 \<le> j" "j < sz" and Ruv: "R j u v"
      and bu: "do {
         wj \<leftarrow> rd wbuf (weight + j);
         xj \<leftarrow> rd xin j;
         wr u j (wj * (1 / sqrt (ss / real_of_int sz + 1 / 100000) * xj))
       } = Some u'"
      and bv: "do {
         wj \<leftarrow> rd wbuf (weight + j);
         xj \<leftarrow> rd xin j;
         wr v j (wj * (1 / sqrt (ss / real_of_int sz + 1 / 100000) * xj))
       } = Some v'"
    have split: "\<And>k. k < j + 1 \<longleftrightarrow> k < j \<or> k = j" by auto
    show "R (j + 1) u' v'"
      using Ruv j bu bv assms(4) unfolding R_def
      by (auto simp: Option.bind_eq_Some_conv wr_def split nth_list_update eq_nat_nat_iff
          split: if_splits)
  qed
  then show ?thesis
    using assms(4) unfolding R_def by (intro prefix_eqI[where n = sz]) auto
qed

lemma memcpy_indep:
  assumes "memcpy dst 0 src soff n = Some r" and "memcpy dst' 0 src soff n = Some r'"
    and "length dst = length dst'" and "int (length dst) = n"
    and "0 \<le> soff" "soff + n \<le> int (length src)"
  shows "r = r'"
proof -
  have n: "0 \<le> n" using assms(4) by simp
  from memcpy_ok[of n 0 dst soff src] assms n
  have a: "length r = length dst" "\<forall>i. 0 \<le> i \<and> i < n \<longrightarrow> r ! nat (0 + i) = src ! nat (soff + i)"
    by auto
  from memcpy_ok[of n 0 dst' soff src] assms n
  have b: "length r' = length dst'" "\<forall>i. 0 \<le> i \<and> i < n \<longrightarrow> r' ! nat (0 + i) = src ! nat (soff + i)"
    by auto
  show ?thesis
    using a b assms(3,4) by (intro prefix_eqI[where n = n]) auto
qed

lemma matmul_indep:
  assumes "matmul xout xin wbuf woff n d = Some r"
    and "length xout = length xout'" and "int (length xout) = d"
    and "0 \<le> n" "n \<le> int (length xin)" "0 \<le> woff" "woff + d * n \<le> int (length wbuf)"
  shows "matmul xout' xin wbuf woff n d = Some r"
proof -
  have d: "0 \<le> d" using assms(3) by simp
  have "matmul xout xin wbuf woff n d = Some (matvec wbuf woff d n xin)"
    by (rule matmul_matvec) (use assms d in auto)
  moreover have "matmul xout' xin wbuf woff n d = Some (matvec wbuf woff d n xin)"
    by (rule matmul_matvec) (use assms d in auto)
  ultimately show ?thesis using assms(1) by simp
qed

lemma softmax_rel:
  assumes "softmax a off sz = Some a'" and "softmax b off sz = Some b'"
    and "length a = length b" and "0 \<le> off" and "1 \<le> sz"
    and "\<forall>i. off \<le> i \<and> i < off + sz \<longrightarrow> a ! nat i = b ! nat i"
  shows "\<forall>i. off \<le> i \<and> i < off + sz \<longrightarrow> a' ! nat i = b' ! nat i"
proof -
  from assms(1) obtain m0 mx a2 ta where
    a0: "rd a off = Some m0"
    and a1: "for_loop 1 sz (\<lambda>i max_val. do {
         xi \<leftarrow> rd a (off + i);
         Some (if xi > max_val then xi else max_val)
       }) m0 = Some mx"
    and a2: "for_loop 0 sz (\<lambda>i (buf, total). do {
         xi \<leftarrow> rd buf (off + i);
         buf \<leftarrow> wr buf (off + i) (exp (xi - mx));
         xi \<leftarrow> rd buf (off + i);
         Some (buf, total + xi)
       }) (a, 0) = Some (a2, ta)"
    and a3: "for_loop 0 sz (\<lambda>i buf. do {
         xi \<leftarrow> rd buf (off + i);
         wr buf (off + i) (xi / ta)
       }) a2 = Some a'"
    unfolding softmax_def by (auto simp: Option.bind_eq_Some_conv)
  from assms(2) obtain n0 nx b2 tb where
    b0: "rd b off = Some n0"
    and b1: "for_loop 1 sz (\<lambda>i max_val. do {
         xi \<leftarrow> rd b (off + i);
         Some (if xi > max_val then xi else max_val)
       }) n0 = Some nx"
    and b2: "for_loop 0 sz (\<lambda>i (buf, total). do {
         xi \<leftarrow> rd buf (off + i);
         buf \<leftarrow> wr buf (off + i) (exp (xi - nx));
         xi \<leftarrow> rd buf (off + i);
         Some (buf, total + xi)
       }) (b, 0) = Some (b2, tb)"
    and b3: "for_loop 0 sz (\<lambda>i buf. do {
         xi \<leftarrow> rd buf (off + i);
         wr buf (off + i) (xi / tb)
       }) b2 = Some b'"
    unfolding softmax_def by (auto simp: Option.bind_eq_Some_conv)
  have m: "m0 = n0"
    using a0 b0 assms(4,5,6) by (auto simp: rd_def split: if_splits)
  have mx: "mx = nx"
  proof (rule for_loop_rel[OF a1 b1, where R = "\<lambda>j u v. u = v"])
    show "m0 = n0" by fact
    show "1 \<le> sz" by fact
  next
    fix j u v u' v'
    assume "1 \<le> j" "j < sz" "u = v"
      "do { xi \<leftarrow> rd a (off + j); Some (if xi > u then xi else u) } = Some u'"
      "do { xi \<leftarrow> rd b (off + j); Some (if xi > v then xi else v) } = Some v'"
    then show "u' = v'"
      using assms(4,6) by (auto simp: Option.bind_eq_Some_conv rd_def split: if_splits)
  qed
  define R where "R = (\<lambda>(j::int) (u :: float list \<times> float) (v :: float list \<times> float).
     snd u = snd v \<and> length (fst u) = length (fst v)
     \<and> (\<forall>i. off \<le> i \<and> i < off + sz \<longrightarrow> fst u ! nat i = fst v ! nat i))"
  have "R sz (a2, ta) (b2, tb)"
  proof (rule for_loop_rel[OF a2 b2[folded mx]])
    show "R 0 (a, 0) (b, 0)" using assms(3,6) by (simp add: R_def)
    show "0 \<le> sz" using assms(5) by simp
  next
    fix j and u v u' v' :: "float list \<times> float"
    assume j: "0 \<le> j" "j < sz" and Ruv: "R j u v"
      and bu: "(case u of (buf, tot) \<Rightarrow> do {
         xi \<leftarrow> rd buf (off + j);
         buf \<leftarrow> wr buf (off + j) (exp (xi - mx));
         xi \<leftarrow> rd buf (off + j);
         Some (buf, tot + xi)
       }) = Some u'"
      and bv: "(case v of (buf, tot) \<Rightarrow> do {
         xi \<leftarrow> rd buf (off + j);
         buf \<leftarrow> wr buf (off + j) (exp (xi - mx));
         xi \<leftarrow> rd buf (off + j);
         Some (buf, tot + xi)
       }) = Some v'"
    obtain ub ut where u: "u = (ub, ut)" by (cases u)
    obtain vb vt where v: "v = (vb, vt)" by (cases v)
    have e: "ub ! nat (off + j) = vb ! nat (off + j)"
      using Ruv j assms(4) unfolding R_def u v by simp
    show "R (j + 1) u' v'"
      using Ruv j bu bv assms(4) e unfolding R_def u v
      by (auto simp: Option.bind_eq_Some_conv rd_def wr_def nth_list_update eq_nat_nat_iff
          split: if_splits)
  qed
  then have t: "ta = tb" and l2: "length a2 = length b2"
    and e2: "\<forall>i. off \<le> i \<and> i < off + sz \<longrightarrow> a2 ! nat i = b2 ! nat i"
    by (simp_all add: R_def)
  define Q where "Q = (\<lambda>(j::int) (u :: float list) (v :: float list).
     length u = length v \<and> (\<forall>i. off \<le> i \<and> i < off + sz \<longrightarrow> u ! nat i = v ! nat i))"
  have "Q sz a' b'"
  proof (rule for_loop_rel[OF a3 b3[folded t]])
    show "Q 0 a2 b2" using l2 e2 by (simp add: Q_def)
    show "0 \<le> sz" using assms(5) by simp
  next
    fix j and u v u' v' :: "float list"
    assume j: "0 \<le> j" "j < sz" and Quv: "Q j u v"
      and bu: "do { xi \<leftarrow> rd u (off + j); wr u (off + j) (xi / ta) } = Some u'"
      and bv: "do { xi \<leftarrow> rd v (off + j); wr v (off + j) (xi / ta) } = Some v'"
    have e: "u ! nat (off + j) = v ! nat (off + j)"
      using Quv j assms(4) unfolding Q_def by simp
    show "Q (j + 1) u' v'"
      using Quv j bu bv assms(4) e unfolding Q_def
      by (auto simp: Option.bind_eq_Some_conv rd_def wr_def nth_list_update eq_nat_nat_iff
          split: if_splits)
  qed
  then show ?thesis by (simp add: Q_def)
qed

lemma write_loop_rel:
  fixes u v :: "float list"
  assumes "for_loop 0 n (\<lambda>t buf. Option.bind (sc t) (\<lambda>a. wr buf (off + t) (g a))) u = Some u'"
    and "for_loop 0 n (\<lambda>t buf. Option.bind (sc' t) (\<lambda>a. wr buf (off + t) (g a))) v = Some v'"
    and "length u = length v" and "0 \<le> n" and "0 \<le> off"
    and "\<And>t a b. 0 \<le> t \<Longrightarrow> t < n \<Longrightarrow> sc t = Some a \<Longrightarrow> sc' t = Some b \<Longrightarrow> a = b"
  shows "length u' = length v'"
    and "\<forall>i. off \<le> i \<and> i < off + n \<longrightarrow> u' ! nat i = v' ! nat i"
    and "\<forall>i. 0 \<le> i \<and> u ! nat i = v ! nat i \<longrightarrow> u' ! nat i = v' ! nat i"
proof -
  define R where "R = (\<lambda>(j::int) (x::float list) (y::float list).
     length x = length y
     \<and> (\<forall>i. off \<le> i \<and> i < off + j \<longrightarrow> x ! nat i = y ! nat i)
     \<and> (\<forall>i. 0 \<le> i \<and> u ! nat i = v ! nat i \<longrightarrow> x ! nat i = y ! nat i))"
  have "R n u' v'"
  proof (rule for_loop_rel[OF assms(1,2)])
    show "R 0 u v" using assms(3) by (simp add: R_def)
    show "0 \<le> n" by fact
  next
    fix j and x y x' y' :: "float list"
    assume j: "0 \<le> j" "j < n" and Rxy: "R j x y"
      and bx: "Option.bind (sc j) (\<lambda>a. wr x (off + j) (g a)) = Some x'"
      and eqy: "Option.bind (sc' j) (\<lambda>a. wr y (off + j) (g a)) = Some y'"
    from bx obtain a where a: "sc j = Some a" "wr x (off + j) (g a) = Some x'"
      by (auto simp: Option.bind_eq_Some_conv)
    from eqy obtain b where b: "sc' j = Some b" "wr y (off + j) (g b) = Some y'"
      by (auto simp: Option.bind_eq_Some_conv)
    have ab: "a = b" using assms(6)[OF j a(1) b(1)] .
    have split: "\<And>k. k < off + (j + 1) \<longleftrightarrow> k < off + j \<or> k = off + j" by auto
    show "R (j + 1) x' y'"
      using Rxy j a(2) b(2) assms(5) unfolding R_def ab
      by (auto simp: wr_def split nth_list_update eq_nat_nat_iff split: if_splits)
  qed
  then show "length u' = length v'"
    and "\<forall>i. off \<le> i \<and> i < off + n \<longrightarrow> u' ! nat i = v' ! nat i"
    and "\<forall>i. 0 \<le> i \<and> u ! nat i = v ! nat i \<longrightarrow> u' ! nat i = v' ! nat i"
    by (simp_all add: R_def)
qed

lemma att_value_rel:
  assumes "for_loop 0 n (\<lambda>t val. do {
                 a \<leftarrow> rd A (off + t);
                 c \<leftarrow> rd vc (idx t);
                 Some (val + a * c)
               }) (0::float) = Some x"
    and "for_loop 0 n (\<lambda>t val. do {
                 a \<leftarrow> rd B (off + t);
                 c \<leftarrow> rd vc (idx t);
                 Some (val + a * c)
               }) (0::float) = Some y"
    and "0 \<le> n" and "0 \<le> off"
    and "\<forall>i. off \<le> i \<and> i < off + n \<longrightarrow> A ! nat i = B ! nat i"
  shows "x = y"
proof (rule for_loop_rel[OF assms(1,2), where R = "\<lambda>j u v. u = v"])
  show "(0::float) = 0" by simp
  show "0 \<le> n" by fact
next
  fix j and u v u' v' :: float
  assume "0 \<le> j" "j < n" "u = v"
    "do { a \<leftarrow> rd A (off + j); c \<leftarrow> rd vc (idx j); Some (u + a * c) } = Some u'"
    "do { a \<leftarrow> rd B (off + j); c \<leftarrow> rd vc (idx j); Some (v + a * c) } = Some v'"
  then show "u' = v'"
    using assms(4,5) by (auto simp: Option.bind_eq_Some_conv rd_def split: if_splits)
qed

lemma write_loop_length:
  fixes u :: "float list"
  assumes "for_loop 0 n (\<lambda>t buf. Option.bind (sc t) (\<lambda>a. wr buf (off + t) (g a))) u = Some u'"
  shows "length u' = length u"
  by (rule for_loop_partial[OF assms, where I = "\<lambda>x. length x = length u"])
     (auto simp: Option.bind_eq_Some_conv wr_def split: if_splits)

lemma softmax_frame:
  assumes "softmax a off sz = Some a'" "0 \<le> off" "1 \<le> sz" "off + sz \<le> int (length a)"
  shows "length a' = length a"
    and "\<forall>i. 0 \<le> i \<and> (i < off \<or> off + sz \<le> i) \<longrightarrow> a' ! nat i = a ! nat i"
  using softmax_ok[OF assms(2,3,4)] assms(1) by auto

lemma att_head_rel:
  fixes ua va ux :: "float list"
  assumes su: "do {
         att \<leftarrow> for_loop 0 (pos + 1) (\<lambda>t att. do {
             score \<leftarrow> for_loop 0 hs (\<lambda>i score. do {
                 qi \<leftarrow> rd q (h * hs + i);
                 ki \<leftarrow> rd kc (loff + t * d + h * hs + i);
                 Some (score + qi * ki)
               }) 0;
             wr att (h * sl + t) (score / sqrt (real_of_int hs))
           }) ua;
         att \<leftarrow> softmax att (h * sl) (pos + 1);
         xb \<leftarrow> for_loop 0 hs (\<lambda>i xb. do {
             val \<leftarrow> for_loop 0 (pos + 1) (\<lambda>t val. do {
                 a \<leftarrow> rd att (h * sl + t);
                 c \<leftarrow> rd vc (loff + t * d + h * hs + i);
                 Some (val + a * c)
               }) 0;
             wr xb (h * hs + i) val
           }) ux;
         Some (att, xb)
       } = Some (ua', ux')"
    and sv: "do {
         att \<leftarrow> for_loop 0 (pos + 1) (\<lambda>t att. do {
             score \<leftarrow> for_loop 0 hs (\<lambda>i score. do {
                 qi \<leftarrow> rd q (h * hs + i);
                 ki \<leftarrow> rd kc (loff + t * d + h * hs + i);
                 Some (score + qi * ki)
               }) 0;
             wr att (h * sl + t) (score / sqrt (real_of_int hs))
           }) va;
         att \<leftarrow> softmax att (h * sl) (pos + 1);
         xb \<leftarrow> for_loop 0 hs (\<lambda>i xb. do {
             val \<leftarrow> for_loop 0 (pos + 1) (\<lambda>t val. do {
                 a \<leftarrow> rd att (h * sl + t);
                 c \<leftarrow> rd vc (loff + t * d + h * hs + i);
                 Some (val + a * c)
               }) 0;
             wr xb (h * hs + i) val
           }) ux;
         Some (att, xb)
       } = Some (va', vx')"
    and len: "length ua = length va"
    and bnd: "0 \<le> pos" "0 \<le> h" "0 \<le> sl" "0 \<le> hs" "h * sl + (pos + 1) \<le> int (length ua)"
  shows "ux' = vx'" and "length ua' = length va'" and "length ua' = length ua"
    and "\<forall>i. h * sl \<le> i \<and> i < h * sl + (pos + 1) \<longrightarrow> ua' ! nat i = va' ! nat i"
    and "\<forall>i. 0 \<le> i \<and> i < h * sl \<and> ua ! nat i = va ! nat i \<longrightarrow> ua' ! nat i = va' ! nat i"
proof -
  define sc where "sc = (\<lambda>t. for_loop 0 hs (\<lambda>i score. do {
                 qi \<leftarrow> rd q (h * hs + i);
                 ki \<leftarrow> rd kc (loff + t * d + h * hs + i);
                 Some (score + qi * ki)
               }) (0::float))"
  define vl where "vl = (\<lambda>(att :: float list) i. for_loop 0 (pos + 1) (\<lambda>t val. do {
                 a \<leftarrow> rd att (h * sl + t);
                 c \<leftarrow> rd vc (loff + t * d + h * hs + i);
                 Some (val + a * c)
               }) (0::float))"
  from su obtain u1 u2 where
    u1: "for_loop 0 (pos + 1) (\<lambda>t buf. Option.bind (sc t)
           (\<lambda>a. wr buf (h * sl + t) (a / sqrt (real_of_int hs)))) ua = Some u1"
    and u2: "softmax u1 (h * sl) (pos + 1) = Some u2"
    and u3: "for_loop 0 hs (\<lambda>i buf. Option.bind (vl u2 i) (\<lambda>a. wr buf (h * hs + i) a)) ux = Some ux'"
    and ua': "ua' = u2"
    unfolding sc_def vl_def by (auto simp: Option.bind_eq_Some_conv)
  from sv obtain v1 v2 where
    v1: "for_loop 0 (pos + 1) (\<lambda>t buf. Option.bind (sc t)
           (\<lambda>a. wr buf (h * sl + t) (a / sqrt (real_of_int hs)))) va = Some v1"
    and v2: "softmax v1 (h * sl) (pos + 1) = Some v2"
    and v3: "for_loop 0 hs (\<lambda>i buf. Option.bind (vl v2 i) (\<lambda>a. wr buf (h * hs + i) a)) ux = Some vx'"
    and va': "va' = v2"
    unfolding sc_def vl_def by (auto simp: Option.bind_eq_Some_conv)
  have off: "0 \<le> h * sl" "0 \<le> pos + 1" "1 \<le> pos + 1" "0 \<le> h * hs"
    using bnd by simp_all
  note f = write_loop_rel[OF u1 v1 len off(2) off(1)]
  have l1: "length u1 = length v1" using f(1) by simp
  have r1: "\<forall>i. h * sl \<le> i \<and> i < h * sl + (pos + 1) \<longrightarrow> u1 ! nat i = v1 ! nat i"
    using f(2) by simp
  have p1: "\<forall>i. 0 \<le> i \<and> ua ! nat i = va ! nat i \<longrightarrow> u1 ! nat i = v1 ! nat i"
    using f(3) by simp
  have lu1: "length u1 = length ua" by (rule write_loop_length[OF u1])
  have lv1: "length v1 = length va" by (rule write_loop_length[OF v1])
  have r2: "\<forall>i. h * sl \<le> i \<and> i < h * sl + (pos + 1) \<longrightarrow> u2 ! nat i = v2 ! nat i"
    by (rule softmax_rel[OF u2 v2 l1 off(1) off(3) r1])
  have bu: "h * sl + (pos + 1) \<le> int (length u1)" using bnd(5) lu1 by simp
  have bv: "h * sl + (pos + 1) \<le> int (length v1)" using bnd(5) lv1 len by simp
  note fu = softmax_frame[OF u2 off(1) off(3) bu]
  note fv = softmax_frame[OF v2 off(1) off(3) bv]
  show "length ua' = length va'" using fu(1) fv(1) l1 ua' va' by simp
  show "length ua' = length ua" using fu(1) lu1 ua' by simp
  show "\<forall>i. h * sl \<le> i \<and> i < h * sl + (pos + 1) \<longrightarrow> ua' ! nat i = va' ! nat i"
    using r2 ua' va' by simp
  show "\<forall>i. 0 \<le> i \<and> i < h * sl \<and> ua ! nat i = va ! nat i \<longrightarrow> ua' ! nat i = va' ! nat i"
    using p1 fu(2) fv(2) ua' va' by simp
  have same: "\<And>i a b. 0 \<le> i \<Longrightarrow> i < hs \<Longrightarrow> vl u2 i = Some a \<Longrightarrow> vl v2 i = Some b \<Longrightarrow> a = b"
    unfolding vl_def by (rule att_value_rel[OF _ _ off(2) off(1) r2])
  have g1: "length ux' = length vx'"
    by (rule write_loop_rel(1)[OF u3 v3 refl bnd(4) off(4)]) (rule same, assumption+)
  have g3: "\<forall>i. 0 \<le> i \<and> ux ! nat i = ux ! nat i \<longrightarrow> ux' ! nat i = vx' ! nat i"
    by (rule write_loop_rel(3)[OF u3 v3 refl bnd(4) off(4)]) (rule same, assumption+)
  show "ux' = vx'"
  proof (rule nth_equalityI)
    show "length ux' = length vx'" using g1 .
  next
    fix k assume "k < length ux'"
    have "0 \<le> int k \<and> ux ! nat (int k) = ux ! nat (int k) \<longrightarrow> ux' ! nat (int k) = vx' ! nat (int k)"
      using g3 by blast
    then show "ux' ! k = vx' ! k" by simp
  qed
qed

lemma mod_in_row:
  fixes i h sl :: int
  assumes "h * sl \<le> i" "i < (h + 1) * sl"
  shows "i mod sl = i - h * sl"
  by (rule int_mod_pos_eq[where q = h]) (use assms in \<open>auto simp: algebra_simps\<close>)

lemma attention_rel:
  assumes "attention p hs pos l s = Some s'" and "attention p hs pos l t = Some t'"
    and "rs_q t = rs_q s" "rs_key_cache t = rs_key_cache s"
      "rs_value_cache t = rs_value_cache s" "rs_xb t = rs_xb s"
      "length (rs_att t) = length (rs_att s)"
    and "0 \<le> pos" "pos < seq_len p" "0 \<le> hs" "0 \<le> n_heads p"
      "n_heads p * seq_len p \<le> int (length (rs_att s))"
  shows "rs_xb t' = rs_xb s'" and "length (rs_att t') = length (rs_att s')"
    and "\<forall>i. att_written p pos i \<longrightarrow> rs_att t' ! nat i = rs_att s' ! nat i"
    and "s' = s\<lparr>rs_att := rs_att s', rs_xb := rs_xb s'\<rparr>"
    and "t' = t\<lparr>rs_att := rs_att t', rs_xb := rs_xb t'\<rparr>"
proof -
  define sl where "sl = seq_len p"
  define body where "body = (\<lambda>h (att, xb). do {
         att \<leftarrow> for_loop 0 (pos + 1) (\<lambda>t att. do {
             score \<leftarrow> for_loop 0 hs (\<lambda>i score. do {
                 qi \<leftarrow> rd (rs_q s) (h * hs + i);
                 ki \<leftarrow> rd (rs_key_cache s) (l * seq_len p * dim p + t * dim p + h * hs + i);
                 Some (score + qi * ki)
               }) 0;
             wr att (h * sl + t) (score / sqrt (real_of_int hs))
           }) att;
         att \<leftarrow> softmax att (h * sl) (pos + 1);
         xb \<leftarrow> for_loop 0 hs (\<lambda>i xb. do {
             val \<leftarrow> for_loop 0 (pos + 1) (\<lambda>t val. do {
                 a \<leftarrow> rd att (h * sl + t);
                 c \<leftarrow> rd (rs_value_cache s) (l * seq_len p * dim p + t * dim p + h * hs + i);
                 Some (val + a * c)
               }) 0;
             wr xb (h * hs + i) val
           }) xb;
         Some (att, xb)
       })"
  from assms(1) obtain ua ux where
    ls: "for_loop 0 (n_heads p) body (rs_att s, rs_xb s) = Some (ua, ux)"
    and s': "s' = s\<lparr>rs_att := ua, rs_xb := ux\<rparr>"
    unfolding attention_def Let_def body_def sl_def
    by (auto simp: Option.bind_eq_Some_conv)
  from assms(2) obtain va vx where
    lt: "for_loop 0 (n_heads p) body (rs_att t, rs_xb s) = Some (va, vx)"
    and t': "t' = t\<lparr>rs_att := va, rs_xb := vx\<rparr>"
    unfolding attention_def Let_def body_def sl_def assms(3,4,5,6)
    by (auto simp: Option.bind_eq_Some_conv)
  define R where "R = (\<lambda>(h::int) (u :: float list \<times> float list) (v :: float list \<times> float list).
     snd u = snd v \<and> length (fst u) = length (fst v) \<and> length (fst u) = length (rs_att s)
     \<and> (\<forall>i. 0 \<le> i \<and> i < h * sl \<and> i mod sl \<le> pos \<longrightarrow> fst u ! nat i = fst v ! nat i))"
  have "R (n_heads p) (ua, ux) (va, vx)"
  proof (rule for_loop_rel[OF ls lt])
    show "R 0 (rs_att s, rs_xb s) (rs_att t, rs_xb s)"
      using assms(7) by (simp add: R_def)
    show "0 \<le> n_heads p" by fact
  next
    fix h and u v u' v' :: "float list \<times> float list"
    assume h: "0 \<le> h" "h < n_heads p" and Ruv: "R h u v"
      and bu: "body h u = Some u'" and bv: "body h v = Some v'"
    obtain a x where u: "u = (a, x)" by (cases u)
    obtain b y where v: "v = (b, y)" by (cases v)
    obtain a' x' where u': "u' = (a', x')" by (cases u')
    obtain b' y' where v': "v' = (b', y')" by (cases v')
    have xy: "y = x" and lab: "length a = length b" and la: "length a = length (rs_att s)"
      and agree: "\<forall>i. 0 \<le> i \<and> i < h * sl \<and> i mod sl \<le> pos \<longrightarrow> a ! nat i = b ! nat i"
      using Ruv unfolding R_def u v by simp_all
    have sl0: "0 \<le> sl" using assms(8,9) by (simp add: sl_def)
    have "h * sl + (pos + 1) \<le> (h + 1) * sl"
      using assms(9) by (simp add: algebra_simps sl_def)
    also have "\<dots> \<le> n_heads p * sl" using h sl0 by (intro mult_right_mono) auto
    finally have bnd: "h * sl + (pos + 1) \<le> int (length a)"
      using assms(12) la by (simp add: sl_def)
    note r = att_head_rel[OF bu[unfolded body_def u u' prod.case]
        bv[unfolded body_def v v' xy prod.case] lab assms(8) h(1) sl0 assms(10) bnd]
    have "\<forall>i. 0 \<le> i \<and> i < (h + 1) * sl \<and> i mod sl \<le> pos \<longrightarrow> a' ! nat i = b' ! nat i"
    proof (intro allI impI)
      fix i assume i: "0 \<le> i \<and> i < (h + 1) * sl \<and> i mod sl \<le> pos"
      show "a' ! nat i = b' ! nat i"
      proof (cases "i < h * sl")
        case True
        then have "a ! nat i = b ! nat i" using agree i by simp
        then show ?thesis using r(5) i True by simp
      next
        case False
        then have "i mod sl = i - h * sl" using mod_in_row[of h sl i] i by simp
        then have "h * sl \<le> i \<and> i < h * sl + (pos + 1)" using i False by simp
        then show ?thesis using r(4) by blast
      qed
    qed
    then show "R (h + 1) u' v'"
      using r(1,2,3) la unfolding R_def u' v' by simp
  qed
  then have x: "ux = vx" and l: "length ua = length va"
    and w: "\<forall>i. 0 \<le> i \<and> i < n_heads p * sl \<and> i mod sl \<le> pos \<longrightarrow> ua ! nat i = va ! nat i"
    by (simp_all add: R_def)
  show "rs_xb t' = rs_xb s'" using x by (simp add: s' t')
  show "length (rs_att t') = length (rs_att s')" using l by (simp add: s' t')
  show "\<forall>i. att_written p pos i \<longrightarrow> rs_att t' ! nat i = rs_att s' ! nat i"
    using w by (simp add: s' t' att_written_def sl_def)
  show "s' = s\<lparr>rs_att := rs_att s', rs_xb := rs_xb s'\<rparr>" by (simp add: s')
  show "t' = t\<lparr>rs_att := rs_att t', rs_xb := rs_xb t'\<rparr>" by (simp add: t')
qed

lemma write_loop_frame:
  fixes u :: "float list"
  assumes "for_loop 0 n (\<lambda>t buf. Option.bind (sc t) (\<lambda>a. wr buf (off + t) (g a))) u = Some u'"
    and "0 \<le> off"
  shows "\<forall>i. 0 \<le> i \<and> (i < off \<or> off + n \<le> i) \<longrightarrow> u' ! nat i = u ! nat i"
proof (rule for_loop_partial[OF assms(1),
      where I = "\<lambda>x. \<forall>i. 0 \<le> i \<and> (i < off \<or> off + n \<le> i) \<longrightarrow> x ! nat i = u ! nat i"])
  show "\<forall>i. 0 \<le> i \<and> (i < off \<or> off + n \<le> i) \<longrightarrow> u ! nat i = u ! nat i" by simp
next
  fix j and x x' :: "float list"
  assume j: "0 \<le> j" "j < n"
    and I: "\<forall>i. 0 \<le> i \<and> (i < off \<or> off + n \<le> i) \<longrightarrow> x ! nat i = u ! nat i"
    and b: "Option.bind (sc j) (\<lambda>a. wr x (off + j) (g a)) = Some x'"
  from b obtain a where a: "wr x (off + j) (g a) = Some x'"
    by (auto simp: Option.bind_eq_Some_conv)
  show "\<forall>i. 0 \<le> i \<and> (i < off \<or> off + n \<le> i) \<longrightarrow> x' ! nat i = u ! nat i"
    using I a j assms(2)
    by (auto simp: wr_def nth_list_update eq_nat_nat_iff split: if_splits)
qed

lemma att_head_frame:
  fixes ua ux :: "float list"
  assumes su: "do {
         att \<leftarrow> for_loop 0 (pos + 1) (\<lambda>t att. do {
             score \<leftarrow> for_loop 0 hs (\<lambda>i score. do {
                 qi \<leftarrow> rd q (h * hs + i);
                 ki \<leftarrow> rd kc (loff + t * d + h * hs + i);
                 Some (score + qi * ki)
               }) 0;
             wr att (h * sl + t) (score / sqrt (real_of_int hs))
           }) ua;
         att \<leftarrow> softmax att (h * sl) (pos + 1);
         xb \<leftarrow> for_loop 0 hs (\<lambda>i xb. do {
             val \<leftarrow> for_loop 0 (pos + 1) (\<lambda>t val. do {
                 a \<leftarrow> rd att (h * sl + t);
                 c \<leftarrow> rd vc (loff + t * d + h * hs + i);
                 Some (val + a * c)
               }) 0;
             wr xb (h * hs + i) val
           }) ux;
         Some (att, xb)
       } = Some (ua', ux')"
    and bnd: "0 \<le> pos" "0 \<le> h" "0 \<le> sl" "h * sl + (pos + 1) \<le> int (length ua)"
  shows "\<forall>i. 0 \<le> i \<and> (i < h * sl \<or> h * sl + (pos + 1) \<le> i) \<longrightarrow> ua' ! nat i = ua ! nat i"
    and "length ua' = length ua"
proof -
  define sc where "sc = (\<lambda>t. for_loop 0 hs (\<lambda>i score. do {
                 qi \<leftarrow> rd q (h * hs + i);
                 ki \<leftarrow> rd kc (loff + t * d + h * hs + i);
                 Some (score + qi * ki)
               }) (0::float))"
  from su obtain u1 where
    u1: "for_loop 0 (pos + 1) (\<lambda>t buf. Option.bind (sc t)
           (\<lambda>a. wr buf (h * sl + t) (a / sqrt (real_of_int hs)))) ua = Some u1"
    and u2: "softmax u1 (h * sl) (pos + 1) = Some ua'"
    unfolding sc_def by (auto simp: Option.bind_eq_Some_conv)
  have off: "0 \<le> h * sl" "1 \<le> pos + 1" using bnd by simp_all
  have lu1: "length u1 = length ua" by (rule write_loop_length[OF u1])
  have bu: "h * sl + (pos + 1) \<le> int (length u1)" using bnd(4) lu1 by simp
  note f1 = write_loop_frame[OF u1 off(1)]
  note f2 = softmax_frame(2)[OF u2 off(1) off(2) bu]
  show "\<forall>i. 0 \<le> i \<and> (i < h * sl \<or> h * sl + (pos + 1) \<le> i) \<longrightarrow> ua' ! nat i = ua ! nat i"
    using f1 f2 by simp
  show "length ua' = length ua"
    using softmax_frame(1)[OF u2 off(1) off(2) bu] lu1 by simp
qed

lemma attention_frame:
  assumes "attention p hs pos l s = Some s'"
    and "0 \<le> pos" "pos < seq_len p" "0 \<le> n_heads p"
      "n_heads p * seq_len p \<le> int (length (rs_att s))"
  shows "\<forall>i. 0 \<le> i \<and> \<not> att_written p pos i \<longrightarrow> rs_att s' ! nat i = rs_att s ! nat i"
proof -
  define sl where "sl = seq_len p"
  define body where "body = (\<lambda>h (att, xb). do {
         att \<leftarrow> for_loop 0 (pos + 1) (\<lambda>t att. do {
             score \<leftarrow> for_loop 0 hs (\<lambda>i score. do {
                 qi \<leftarrow> rd (rs_q s) (h * hs + i);
                 ki \<leftarrow> rd (rs_key_cache s) (l * seq_len p * dim p + t * dim p + h * hs + i);
                 Some (score + qi * ki)
               }) 0;
             wr att (h * sl + t) (score / sqrt (real_of_int hs))
           }) att;
         att \<leftarrow> softmax att (h * sl) (pos + 1);
         xb \<leftarrow> for_loop 0 hs (\<lambda>i xb. do {
             val \<leftarrow> for_loop 0 (pos + 1) (\<lambda>t val. do {
                 a \<leftarrow> rd att (h * sl + t);
                 c \<leftarrow> rd (rs_value_cache s) (l * seq_len p * dim p + t * dim p + h * hs + i);
                 Some (val + a * c)
               }) 0;
             wr xb (h * hs + i) val
           }) xb;
         Some (att, xb)
       })"
  from assms(1) obtain ua ux where
    ls: "for_loop 0 (n_heads p) body (rs_att s, rs_xb s) = Some (ua, ux)"
    and s': "s' = s\<lparr>rs_att := ua, rs_xb := ux\<rparr>"
    unfolding attention_def Let_def body_def sl_def
    by (auto simp: Option.bind_eq_Some_conv)
  define I where "I = (\<lambda>u :: float list \<times> float list.
     length (fst u) = length (rs_att s)
     \<and> (\<forall>i. 0 \<le> i \<and> \<not> att_written p pos i \<longrightarrow> fst u ! nat i = rs_att s ! nat i))"
  have "I (ua, ux)"
  proof (rule for_loop_partial[OF ls, where I = I])
    show "I (rs_att s, rs_xb s)" by (simp add: I_def)
  next
    fix h and u u' :: "float list \<times> float list"
    assume h: "0 \<le> h" "h < n_heads p" and Iu: "I u" and bu: "body h u = Some u'"
    obtain a x where u: "u = (a, x)" by (cases u)
    obtain a' x' where u': "u' = (a', x')" by (cases u')
    have la: "length a = length (rs_att s)"
      and fa: "\<forall>i. 0 \<le> i \<and> \<not> att_written p pos i \<longrightarrow> a ! nat i = rs_att s ! nat i"
      using Iu unfolding I_def u by simp_all
    have sl0: "0 \<le> sl" using assms(2,3) by (simp add: sl_def)
    have "h * sl + (pos + 1) \<le> (h + 1) * sl"
      using assms(3) by (simp add: algebra_simps sl_def)
    also have "\<dots> \<le> n_heads p * sl" using h sl0 by (intro mult_right_mono) auto
    finally have top: "h * sl + (pos + 1) \<le> n_heads p * sl" .
    have bnd: "h * sl + (pos + 1) \<le> int (length a)"
      using top assms(5) la by (simp add: sl_def)
    note fr = att_head_frame[OF bu[unfolded body_def u u' prod.case] assms(2) h(1) sl0 bnd]
    have la': "length a' = length a" by (rule fr(2))
    have "\<forall>i. 0 \<le> i \<and> \<not> att_written p pos i \<longrightarrow> a' ! nat i = rs_att s ! nat i"
    proof (intro allI impI)
      fix i assume i: "0 \<le> i \<and> \<not> att_written p pos i"
      have "i < h * sl \<or> h * sl + (pos + 1) \<le> i"
      proof (rule ccontr)
        assume "\<not> (i < h * sl \<or> h * sl + (pos + 1) \<le> i)"
        then have r: "h * sl \<le> i" "i < h * sl + (pos + 1)" by simp_all
        then have "i < (h + 1) * sl" using assms(3) by (simp add: algebra_simps sl_def)
        then have "i mod sl = i - h * sl" using mod_in_row[of h sl i] r by simp
        then have "att_written p pos i"
          using r top i by (simp add: att_written_def sl_def)
        then show False using i by simp
      qed
      then have "a' ! nat i = a ! nat i" using fr(1) i by blast
      then show "a' ! nat i = rs_att s ! nat i" using fa i by simp
    qed
    then show "I u'" using la la' unfolding I_def u' by simp
  qed
  then show ?thesis by (simp add: I_def s')
qed

lemma state_okD:
  assumes "state_ok p s"
  shows "int (length (rs_x s)) = dim p" "int (length (rs_xb s)) = dim p"
    "int (length (rs_xb2 s)) = dim p" "int (length (rs_hb s)) = hidden_dim p"
    "int (length (rs_hb2 s)) = hidden_dim p" "int (length (rs_q s)) = dim p"
    "int (length (rs_k s)) = dim p" "int (length (rs_v s)) = dim p"
    "int (length (rs_att s)) = n_heads p * seq_len p"
    "int (length (rs_logits s)) = vocab_size p"
    "int (length (rs_key_cache s)) = n_layers p * seq_len p * dim p"
    "int (length (rs_value_cache s)) = n_layers p * seq_len p * dim p"
  using assms by (simp_all add: state_ok_def)

lemma state_ok_len:
  assumes "state_ok p s" "state_ok p t"
  shows "length (rs_x t) = length (rs_x s)" "length (rs_xb t) = length (rs_xb s)"
    "length (rs_xb2 t) = length (rs_xb2 s)" "length (rs_hb t) = length (rs_hb s)"
    "length (rs_hb2 t) = length (rs_hb2 s)" "length (rs_q t) = length (rs_q s)"
    "length (rs_k t) = length (rs_k s)" "length (rs_v t) = length (rs_v s)"
    "length (rs_att t) = length (rs_att s)" "length (rs_logits t) = length (rs_logits s)"
    "length (rs_key_cache t) = length (rs_key_cache s)"
    "length (rs_value_cache t) = length (rs_value_cache s)"
  using state_okD[OF assms(1)] state_okD[OF assms(2)] by simp_all

lemma weights_okD:
  assumes "weights_ok p w wbuf"
  shows "0 \<le> rms_att_weight w" "rms_att_weight w + n_layers p * dim p \<le> int (length wbuf)"
    "0 \<le> wq w" "wq w + n_layers p * dim p * dim p \<le> int (length wbuf)"
    "0 \<le> wk w" "wk w + n_layers p * dim p * dim p \<le> int (length wbuf)"
    "0 \<le> wv w" "wv w + n_layers p * dim p * dim p \<le> int (length wbuf)"
    "0 \<le> wo w" "wo w + n_layers p * dim p * dim p \<le> int (length wbuf)"
    "0 \<le> rms_ffn_weight w" "rms_ffn_weight w + n_layers p * dim p \<le> int (length wbuf)"
    "0 \<le> w1 w" "w1 w + n_layers p * dim p * hidden_dim p \<le> int (length wbuf)"
    "0 \<le> w2 w" "w2 w + n_layers p * dim p * hidden_dim p \<le> int (length wbuf)"
    "0 \<le> w3 w" "w3 w + n_layers p * dim p * hidden_dim p \<le> int (length wbuf)"
    "0 \<le> rms_final_weight w" "rms_final_weight w + dim p \<le> int (length wbuf)"
    "0 \<le> wcls w" "wcls w + vocab_size p * dim p \<le> int (length wbuf)"
  using assms by (simp_all add: weights_ok_def)

lemma rmsnorm_tr:
  assumes "rmsnorm out xin wbuf weight sz = Some r"
    and "length out' = length out" and "int (length out) = sz"
    and "sz \<le> int (length xin)" "0 \<le> weight" "weight + sz \<le> int (length wbuf)"
  shows "rmsnorm out' xin wbuf weight sz = Some r"
proof -
  obtain r' where r': "rmsnorm out' xin wbuf weight sz = Some r'"
    using rmsnorm_ok[of sz out' xin weight wbuf] assms by auto
  have "r = r'" by (rule rmsnorm_indep[OF assms(1) r' assms(2)[symmetric] assms(3)])
  with r' show ?thesis by simp
qed

lemma att_norm_tr:
  assumes "config_ok p" "weights_ok p w wbuf" "0 \<le> l" "l < n_layers p"
    and "state_ok p s" "state_ok p t" and "att_norm p wbuf w l s = Some s'"
    and "rs_x t = rs_x s"
  shows "att_norm p wbuf w l t = Some (t\<lparr>rs_xb := rs_xb s'\<rparr>)"
    and "s' = s\<lparr>rs_xb := rs_xb s'\<rparr>"
proof -
  have d: "0 \<le> dim p" using assms(1) by (simp add: config_ok_def)
  note o1 = off1[OF assms(3,4) d]
  from assms(7) obtain xb where
    xb: "rmsnorm (rs_xb s) (rs_x s) wbuf (rms_att_weight w + l * dim p) (dim p) = Some xb"
    and s': "s' = s\<lparr>rs_xb := xb\<rparr>"
    unfolding att_norm_def by (auto simp: Option.bind_eq_Some_conv)
  note ws = weights_okD[OF assms(2)]
  note ss = state_okD[OF assms(5)]
  note sl = state_ok_len[OF assms(5,6)]
  have "rmsnorm (rs_xb t) (rs_x s) wbuf (rms_att_weight w + l * dim p) (dim p) = Some xb"
    by (rule rmsnorm_tr[OF xb sl(2) ss(2)]) (use ss(1) ws(1,2) o1 in auto)
  then show "att_norm p wbuf w l t = Some (t\<lparr>rs_xb := rs_xb s'\<rparr>)"
    unfolding att_norm_def by (simp add: assms(8) s')
  show "s' = s\<lparr>rs_xb := rs_xb s'\<rparr>" by (simp add: s')
qed

lemma qkv_tr:
  assumes "config_ok p" "weights_ok p w wbuf" "0 \<le> l" "l < n_layers p"
    and "state_ok p s" "state_ok p t" and "qkv p wbuf w l s = Some s'"
    and "rs_xb t = rs_xb s"
  shows "qkv p wbuf w l t = Some (t\<lparr>rs_q := rs_q s', rs_k := rs_k s', rs_v := rs_v s'\<rparr>)"
    and "s' = s\<lparr>rs_q := rs_q s', rs_k := rs_k s', rs_v := rs_v s'\<rparr>"
proof -
  have d: "0 \<le> dim p" using assms(1) by (simp add: config_ok_def)
  note o2 = off2[OF assms(3,4) d d]
  from assms(7) obtain q k v where
    q: "matmul (rs_q s) (rs_xb s) wbuf (wq w + l * dim p * dim p) (dim p) (dim p) = Some q"
    and k: "matmul (rs_k s) (rs_xb s) wbuf (wk w + l * dim p * dim p) (dim p) (dim p) = Some k"
    and v: "matmul (rs_v s) (rs_xb s) wbuf (wv w + l * dim p * dim p) (dim p) (dim p) = Some v"
    and s': "s' = s\<lparr>rs_q := q, rs_k := k, rs_v := v\<rparr>"
    unfolding qkv_def by (auto simp: Option.bind_eq_Some_conv)
  note ws = weights_okD[OF assms(2)]
  note ss = state_okD[OF assms(5)]
  note sl = state_ok_len[OF assms(5,6)]
  have q': "matmul (rs_q t) (rs_xb s) wbuf (wq w + l * dim p * dim p) (dim p) (dim p) = Some q"
    by (rule matmul_indep[OF q sl(6)[symmetric] ss(6) d]) (use ss(2) ws(3,4) o2 in auto)
  have k': "matmul (rs_k t) (rs_xb s) wbuf (wk w + l * dim p * dim p) (dim p) (dim p) = Some k"
    by (rule matmul_indep[OF k sl(7)[symmetric] ss(7) d]) (use ss(2) ws(5,6) o2 in auto)
  have v': "matmul (rs_v t) (rs_xb s) wbuf (wv w + l * dim p * dim p) (dim p) (dim p) = Some v"
    by (rule matmul_indep[OF v sl(8)[symmetric] ss(8) d]) (use ss(2) ws(7,8) o2 in auto)
  show "qkv p wbuf w l t = Some (t\<lparr>rs_q := rs_q s', rs_k := rs_k s', rs_v := rs_v s'\<rparr>)"
    unfolding qkv_def by (simp add: assms(8) q' k' v' s')
  show "s' = s\<lparr>rs_q := rs_q s', rs_k := rs_k s', rs_v := rs_v s'\<rparr>" by (simp add: s')
qed

lemma rope_tr:
  assumes "rope p wbuf hs fr fi s = Some s'" and "rs_q t = rs_q s" "rs_k t = rs_k s"
  shows "rope p wbuf hs fr fi t = Some (t\<lparr>rs_q := rs_q s', rs_k := rs_k s'\<rparr>)"
    and "s' = s\<lparr>rs_q := rs_q s', rs_k := rs_k s'\<rparr>"
  using assms unfolding rope_def
  by (auto simp: Option.bind_eq_Some_conv)

lemma save_kv_tr:
  assumes "save_kv p pos l s = Some s'" and "rs_k t = rs_k s" "rs_v t = rs_v s"
    and "rs_key_cache t = rs_key_cache s" "rs_value_cache t = rs_value_cache s"
  shows "save_kv p pos l t = Some (t\<lparr>rs_key_cache := rs_key_cache s',
            rs_value_cache := rs_value_cache s'\<rparr>)"
    and "s' = s\<lparr>rs_key_cache := rs_key_cache s', rs_value_cache := rs_value_cache s'\<rparr>"
  using assms unfolding save_kv_def Let_def
  by (auto simp: Option.bind_eq_Some_conv)

lemma attn_out_tr:
  assumes "config_ok p" "weights_ok p w wbuf" "0 \<le> l" "l < n_layers p"
    and "state_ok p s" "state_ok p t" and "attn_out p wbuf w l s = Some s'"
    and "rs_xb t = rs_xb s" "rs_x t = rs_x s"
  shows "attn_out p wbuf w l t = Some (t\<lparr>rs_xb2 := rs_xb2 s', rs_x := rs_x s'\<rparr>)"
    and "s' = s\<lparr>rs_xb2 := rs_xb2 s', rs_x := rs_x s'\<rparr>"
proof -
  have d: "0 \<le> dim p" using assms(1) by (simp add: config_ok_def)
  note o2 = off2[OF assms(3,4) d d]
  from assms(7) obtain xb2 x where
    xb2: "matmul (rs_xb2 s) (rs_xb s) wbuf (wo w + l * dim p * dim p) (dim p) (dim p) = Some xb2"
    and x: "accum (rs_x s) xb2 (dim p) = Some x"
    and s': "s' = s\<lparr>rs_xb2 := xb2, rs_x := x\<rparr>"
    unfolding attn_out_def by (auto simp: Option.bind_eq_Some_conv)
  note ws = weights_okD[OF assms(2)]
  note ss = state_okD[OF assms(5)]
  note sl = state_ok_len[OF assms(5,6)]
  have xb2': "matmul (rs_xb2 t) (rs_xb s) wbuf (wo w + l * dim p * dim p) (dim p) (dim p) = Some xb2"
    by (rule matmul_indep[OF xb2 sl(3)[symmetric] ss(3) d]) (use ss(2) ws(9,10) o2 in auto)
  show "attn_out p wbuf w l t = Some (t\<lparr>rs_xb2 := rs_xb2 s', rs_x := rs_x s'\<rparr>)"
    unfolding attn_out_def by (simp add: assms(8,9) xb2' x s')
  show "s' = s\<lparr>rs_xb2 := rs_xb2 s', rs_x := rs_x s'\<rparr>" by (simp add: s')
qed

lemma ffn_tr:
  assumes "config_ok p" "weights_ok p w wbuf" "0 \<le> l" "l < n_layers p"
    and "state_ok p s" "state_ok p t" and "ffn p wbuf w l s = Some s'"
    and "rs_x t = rs_x s"
  shows "ffn p wbuf w l t = Some (t\<lparr>rs_xb := rs_xb s', rs_hb := rs_hb s',
            rs_hb2 := rs_hb2 s', rs_x := rs_x s'\<rparr>)"
    and "s' = s\<lparr>rs_xb := rs_xb s', rs_hb := rs_hb s', rs_hb2 := rs_hb2 s', rs_x := rs_x s'\<rparr>"
proof -
  have d: "0 \<le> dim p" "0 \<le> hidden_dim p" using assms(1) by (simp_all add: config_ok_def)
  note o1 = off1[OF assms(3,4) d(1)]
  note o2 = off2[OF assms(3,4) d(1) d(2)]
  from assms(7) obtain xb hb hb2 hbs hbg xb' x where
    xb: "rmsnorm (rs_xb s) (rs_x s) wbuf (rms_ffn_weight w + l * dim p) (dim p) = Some xb"
    and hb: "matmul (rs_hb s) xb wbuf (w1 w + l * dim p * hidden_dim p) (dim p) (hidden_dim p) = Some hb"
    and hb2: "matmul (rs_hb2 s) xb wbuf (w3 w + l * dim p * hidden_dim p) (dim p) (hidden_dim p) = Some hb2"
    and hbs: "for_loop 0 (hidden_dim p) (\<lambda>i hb. do {
         a \<leftarrow> rd hb i;
         wr hb i (a * (1 / (1 + exp (- a))))
       }) hb = Some hbs"
    and hbg: "for_loop 0 (hidden_dim p) (\<lambda>i hb. do {
         a \<leftarrow> rd hb i;
         b \<leftarrow> rd hb2 i;
         wr hb i (a * b)
       }) hbs = Some hbg"
    and xb': "matmul xb hbg wbuf (w2 w + l * dim p * hidden_dim p) (hidden_dim p) (dim p) = Some xb'"
    and x: "accum (rs_x s) xb' (dim p) = Some x"
    and s': "s' = s\<lparr>rs_xb := xb', rs_hb := hbg, rs_hb2 := hb2, rs_x := x\<rparr>"
    unfolding ffn_def by (auto simp: Option.bind_eq_Some_conv simp del: times_divide_eq_right)
  note ws = weights_okD[OF assms(2)]
  note ss = state_okD[OF assms(5)]
  note sl = state_ok_len[OF assms(5,6)]
  have lxb: "int (length xb) = dim p"
    using rmsnorm_ok[of "dim p" "rs_xb s" "rs_x s" "rms_ffn_weight w + l * dim p" wbuf]
      ss(1,2) ws(11,12) o1 xb by auto
  have xbt: "rmsnorm (rs_xb t) (rs_x s) wbuf (rms_ffn_weight w + l * dim p) (dim p) = Some xb"
    by (rule rmsnorm_tr[OF xb sl(2) ss(2)]) (use ss(1) ws(11,12) o1 in auto)
  have hbt: "matmul (rs_hb t) xb wbuf (w1 w + l * dim p * hidden_dim p) (dim p) (hidden_dim p) = Some hb"
    by (rule matmul_indep[OF hb sl(4)[symmetric] ss(4) d(1)]) (use lxb ws(13,14) o2 in auto)
  have hb2t: "matmul (rs_hb2 t) xb wbuf (w3 w + l * dim p * hidden_dim p) (dim p) (hidden_dim p) = Some hb2"
    by (rule matmul_indep[OF hb2 sl(5)[symmetric] ss(5) d(1)]) (use lxb ws(17,18) o2 in auto)
  show "ffn p wbuf w l t = Some (t\<lparr>rs_xb := rs_xb s', rs_hb := rs_hb s',
            rs_hb2 := rs_hb2 s', rs_x := rs_x s'\<rparr>)"
    unfolding ffn_def
    by (simp add: assms(8) xbt hbt hb2t hbs hbg xb' x s' del: times_divide_eq_right)
  show "s' = s\<lparr>rs_xb := rs_xb s', rs_hb := rs_hb s', rs_hb2 := rs_hb2 s', rs_x := rs_x s'\<rparr>"
    by (simp add: s')
qed

lemma att_norm_pres:
  assumes "config_ok p" "state_ok p s" "weights_ok p w wbuf" "0 \<le> l" "l < n_layers p"
    and "att_norm p wbuf w l s = Some s'"
  shows "state_ok p s'"
  using att_norm_ok[OF assms(1-5)] assms(6) state_okD[OF assms(2)]
  by (auto simp: state_ok_def)

lemma qkv_pres:
  assumes "config_ok p" "state_ok p s" "weights_ok p w wbuf" "0 \<le> l" "l < n_layers p"
    and "qkv p wbuf w l s = Some s'"
  shows "state_ok p s'"
  using qkv_ok[OF assms(1-5)] assms(6) state_okD[OF assms(2)]
  by (auto simp: state_ok_def)

lemma rope_pres:
  assumes "config_ok p" "state_ok p s" "weights_ok p w wbuf" "0 \<le> pos" "pos < seq_len p"
    and "rope p wbuf (head_size_of p)
                 (freq_cis_real w + (pos * head_size_of p) sdiv 2)
                 (freq_cis_imag w + (pos * head_size_of p) sdiv 2) s = Some s'"
  shows "state_ok p s'"
  using rope_stage_ok[OF assms(1-5)] assms(6) state_okD[OF assms(2)]
  by (auto simp: state_ok_def)

lemma save_kv_pres:
  assumes "config_ok p" "state_ok p s" "0 \<le> pos" "pos < seq_len p" "0 \<le> l" "l < n_layers p"
    and "save_kv p pos l s = Some s'"
  shows "state_ok p s'"
  using save_kv_ok[OF assms(1-6)] assms(7) state_okD[OF assms(2)]
  by (auto simp: state_ok_def)

lemma attention_pres:
  assumes "config_ok p" "state_ok p s" "0 \<le> pos" "pos < seq_len p" "0 \<le> l" "l < n_layers p"
    and "attention p (head_size_of p) pos l s = Some s'"
  shows "state_ok p s'"
  using attention_stage_ok[OF assms(1-6)] assms(7) state_okD[OF assms(2)]
  by (auto simp: state_ok_def)

lemma attn_out_pres:
  assumes "config_ok p" "state_ok p s" "weights_ok p w wbuf" "0 \<le> l" "l < n_layers p"
    and "attn_out p wbuf w l s = Some s'"
  shows "state_ok p s'"
  using attn_out_ok[OF assms(1-5)] assms(6) state_okD[OF assms(2)]
  by (auto simp: state_ok_def)

lemma ffn_pres:
  assumes "config_ok p" "state_ok p s" "weights_ok p w wbuf" "0 \<le> l" "l < n_layers p"
    and "ffn p wbuf w l s = Some s'"
  shows "state_ok p s'"
  using ffn_ok[OF assms(1-5)] assms(6) state_okD[OF assms(2)]
  by (auto simp: state_ok_def)

lemma layer_tr:
  assumes c: "config_ok p" and w: "weights_ok p w wbuf"
    and ps: "0 \<le> pos" "pos < seq_len p" and ls: "0 \<le> l" "l < n_layers p"
    and os: "state_ok p s" and ot: "state_ok p t"
    and run: "layer pos p wbuf w (head_size_of p)
                 (freq_cis_real w + (pos * head_size_of p) sdiv 2)
                 (freq_cis_imag w + (pos * head_size_of p) sdiv 2) l s = Some s'"
    and eq: "rs_x t = rs_x s" "rs_key_cache t = rs_key_cache s"
      "rs_value_cache t = rs_value_cache s"
  shows "\<exists>att. layer pos p wbuf w (head_size_of p)
                 (freq_cis_real w + (pos * head_size_of p) sdiv 2)
                 (freq_cis_imag w + (pos * head_size_of p) sdiv 2) l t
               = Some (s'\<lparr>rs_att := att, rs_logits := rs_logits t\<rparr>)
           \<and> length att = length (rs_att s')
           \<and> (\<forall>i. att_written p pos i \<longrightarrow> att ! nat i = rs_att s' ! nat i)"
    and "state_ok p s'" and "rs_logits s' = rs_logits s"
    and "\<forall>i. 0 \<le> i \<and> \<not> att_written p pos i \<longrightarrow> rs_att s' ! nat i = rs_att s ! nat i"
proof -
  define fr where "fr = freq_cis_real w + (pos * head_size_of p) sdiv 2"
  define fi where "fi = freq_cis_imag w + (pos * head_size_of p) sdiv 2"
  note hs = head_size_props[OF c]
  from run[unfolded layer_def fr_def[symmetric] fi_def[symmetric]]
  obtain s1 s2 s3 s4 s5 s6 where
    a1: "att_norm p wbuf w l s = Some s1" and a2: "qkv p wbuf w l s1 = Some s2"
    and a3: "rope p wbuf (head_size_of p) fr fi s2 = Some s3"
    and a4: "save_kv p pos l s3 = Some s4"
    and a5: "attention p (head_size_of p) pos l s4 = Some s5"
    and a6: "attn_out p wbuf w l s5 = Some s6" and a7: "ffn p wbuf w l s6 = Some s'"
    by (elim bind_SomeE) auto
  have o1: "state_ok p s1" by (rule att_norm_pres[OF c os w ls a1])
  have o2: "state_ok p s2" by (rule qkv_pres[OF c o1 w ls a2])
  have o3: "state_ok p s3" by (rule rope_pres[OF c o2 w ps a3[unfolded fr_def fi_def]])
  have o4: "state_ok p s4" by (rule save_kv_pres[OF c o3 ps ls a4])
  have o5: "state_ok p s5" by (rule attention_pres[OF c o4 ps ls a5])
  have o6: "state_ok p s6" by (rule attn_out_pres[OF c o5 w ls a6])
  show o7: "state_ok p s'" by (rule ffn_pres[OF c o6 w ls a7])
  \<comment> \<open>the first run, stage by stage\<close>
  note e1 = att_norm_tr(2)[OF c w ls os os a1 refl]
  note e2 = qkv_tr(2)[OF c w ls o1 o1 a2 refl]
  note e3 = rope_tr(2)[OF a3 refl refl]
  note e4 = save_kv_tr(2)[OF a4 refl refl refl refl]
  have nh: "0 \<le> n_heads p" using c by (simp add: config_ok_def)
  have la: "n_heads p * seq_len p \<le> int (length (rs_att s4))"
    using state_okD(9)[OF o4] by simp
  note e5 = attention_rel(4)[OF a5 a5 refl refl refl refl refl ps(1,2) hs(1) nh la]
  note e6 = attn_out_tr(2)[OF c w ls o5 o5 a6 refl refl]
  note e7 = ffn_tr(2)[OF c w ls o6 o6 a7 refl]
  \<comment> \<open>the second run\<close>
  define t1 where "t1 = t\<lparr>rs_xb := rs_xb s1\<rparr>"
  have b1: "att_norm p wbuf w l t = Some t1"
    unfolding t1_def by (rule att_norm_tr(1)[OF c w ls os ot a1 eq(1)])
  have p1: "state_ok p t1" by (rule att_norm_pres[OF c ot w ls b1])
  define t2 where "t2 = t1\<lparr>rs_q := rs_q s2, rs_k := rs_k s2, rs_v := rs_v s2\<rparr>"
  have b2: "qkv p wbuf w l t1 = Some t2"
    unfolding t2_def by (rule qkv_tr(1)[OF c w ls o1 p1 a2]) (simp add: t1_def)
  have p2: "state_ok p t2" by (rule qkv_pres[OF c p1 w ls b2])
  define t3 where "t3 = t2\<lparr>rs_q := rs_q s3, rs_k := rs_k s3\<rparr>"
  have b3: "rope p wbuf (head_size_of p) fr fi t2 = Some t3"
    unfolding t3_def by (rule rope_tr(1)[OF a3]) (simp_all add: t2_def)
  have p3: "state_ok p t3" by (rule rope_pres[OF c p2 w ps b3[unfolded fr_def fi_def]])
  have v3: "rs_v s3 = rs_v s2" by (subst e3) simp
  have kc3: "rs_key_cache s3 = rs_key_cache s" "rs_value_cache s3 = rs_value_cache s"
    by (subst e3, simp, subst e2, simp, subst e1, simp)+
  define t4 where "t4 = t3\<lparr>rs_key_cache := rs_key_cache s4, rs_value_cache := rs_value_cache s4\<rparr>"
  have b4: "save_kv p pos l t3 = Some t4"
    unfolding t4_def
    by (rule save_kv_tr(1)[OF a4]) (simp_all add: t3_def t2_def t1_def v3 kc3 eq)
  have p4: "state_ok p t4" by (rule save_kv_pres[OF c p3 ps ls b4])
  obtain t5 where b5: "attention p (head_size_of p) pos l t4 = Some t5"
    using attention_stage_ok[OF c p4 ps ls] by blast
  have p5: "state_ok p t5" by (rule attention_pres[OF c p4 ps ls b5])
  have q4: "rs_q s4 = rs_q s3" "rs_xb s4 = rs_xb s1"
    by (subst e4, simp, (subst e3, simp, subst e2, simp)?)+
  note r5 = attention_rel[OF a5 b5 _ _ _ _ state_ok_len(9)[OF o4 p4] ps(1,2) hs(1) nh la]
  have x5: "rs_xb t5 = rs_xb s5"
    by (rule r5(1)) (simp_all add: t4_def t3_def t2_def t1_def q4)
  have l5: "length (rs_att t5) = length (rs_att s5)"
    by (rule r5(2)) (simp_all add: t4_def t3_def t2_def t1_def q4)
  have w5: "\<forall>i. att_written p pos i \<longrightarrow> rs_att t5 ! nat i = rs_att s5 ! nat i"
    by (rule r5(3)) (simp_all add: t4_def t3_def t2_def t1_def q4)
  have f5: "t5 = t4\<lparr>rs_att := rs_att t5, rs_xb := rs_xb t5\<rparr>"
    by (rule r5(5)) (simp_all add: t4_def t3_def t2_def t1_def q4)
  have x5s: "rs_x s5 = rs_x s"
    by (subst e5, simp, subst e4, simp, subst e3, simp, subst e2, simp, subst e1, simp)
  have x5t: "rs_x t5 = rs_x t"
    by (subst f5) (simp add: t4_def t3_def t2_def t1_def)
  define t6 where "t6 = t5\<lparr>rs_xb2 := rs_xb2 s6, rs_x := rs_x s6\<rparr>"
  have b6: "attn_out p wbuf w l t5 = Some t6"
    unfolding t6_def by (rule attn_out_tr(1)[OF c w ls o5 p5 a6 x5]) (simp add: x5s x5t eq)
  have p6: "state_ok p t6" by (rule attn_out_pres[OF c p5 w ls b6])
  define t7 where "t7 = t6\<lparr>rs_xb := rs_xb s', rs_hb := rs_hb s', rs_hb2 := rs_hb2 s',
      rs_x := rs_x s'\<rparr>"
  have b7: "ffn p wbuf w l t6 = Some t7"
    unfolding t7_def by (rule ffn_tr(1)[OF c w ls o6 p6 a7]) (simp add: t6_def)
  have runt: "layer pos p wbuf w (head_size_of p) fr fi l t = Some t7"
    unfolding layer_def by (simp add: b1 b2 b3 b4 b5 b6 b7)
  \<comment> \<open>the fields of the two results\<close>
  have g7: "rs_xb2 s' = rs_xb2 s6" "rs_q s' = rs_q s6" "rs_k s' = rs_k s6" "rs_v s' = rs_v s6"
    "rs_att s' = rs_att s6" "rs_logits s' = rs_logits s6"
    "rs_key_cache s' = rs_key_cache s6" "rs_value_cache s' = rs_value_cache s6"
    by (subst e7, simp)+
  have g6: "rs_q s6 = rs_q s5" "rs_k s6 = rs_k s5" "rs_v s6 = rs_v s5"
    "rs_att s6 = rs_att s5" "rs_logits s6 = rs_logits s5"
    "rs_key_cache s6 = rs_key_cache s5" "rs_value_cache s6 = rs_value_cache s5"
    by (subst e6, simp)+
  have g5: "rs_q s5 = rs_q s4" "rs_k s5 = rs_k s4" "rs_v s5 = rs_v s4"
    "rs_logits s5 = rs_logits s4"
    "rs_key_cache s5 = rs_key_cache s4" "rs_value_cache s5 = rs_value_cache s4"
    by (subst e5, simp)+
  have g4: "rs_q s4 = rs_q s3" "rs_k s4 = rs_k s3" "rs_v s4 = rs_v s3"
    "rs_logits s4 = rs_logits s3"
    by (subst e4, simp)+
  have g3: "rs_v s3 = rs_v s2" "rs_logits s3 = rs_logits s2"
    by (subst e3, simp)+
  have g2: "rs_logits s2 = rs_logits s1" by (subst e2) simp
  have g1: "rs_logits s1 = rs_logits s" by (subst e1) simp
  show "rs_logits s' = rs_logits s"
    by (simp add: g7 g6 g5 g4 g3 g2 g1)
  have att4: "rs_att s4 = rs_att s"
    by (subst e4, simp, subst e3, simp, subst e2, simp, subst e1, simp)
  show "\<forall>i. 0 \<le> i \<and> \<not> att_written p pos i \<longrightarrow> rs_att s' ! nat i = rs_att s ! nat i"
    using attention_frame[OF a5 ps nh la] by (simp add: g7 g6 att4)
  have t5f: "rs_q t5 = rs_q s3" "rs_k t5 = rs_k s3" "rs_v t5 = rs_v s2"
    "rs_logits t5 = rs_logits t"
    "rs_key_cache t5 = rs_key_cache s4" "rs_value_cache t5 = rs_value_cache s4"
    by (subst f5, simp add: t4_def t3_def t2_def t1_def)+
  have "t7 = s'\<lparr>rs_att := rs_att t5, rs_logits := rs_logits t\<rparr>"
    by (rule RunState.equality)
       (simp_all add: t7_def t6_def t5f g7 g6 g5 g4 g3)
  then show "\<exists>att. layer pos p wbuf w (head_size_of p)
                 (freq_cis_real w + (pos * head_size_of p) sdiv 2)
                 (freq_cis_imag w + (pos * head_size_of p) sdiv 2) l t
               = Some (s'\<lparr>rs_att := att, rs_logits := rs_logits t\<rparr>)
           \<and> length att = length (rs_att s')
           \<and> (\<forall>i. att_written p pos i \<longrightarrow> att ! nat i = rs_att s' ! nat i)"
    using runt l5 w5 unfolding fr_def fi_def
    by (intro exI[of _ "rs_att t5"]) (simp add: g7 g6)
qed

lemma transformer_tr:
  assumes c: "config_ok p" and w: "weights_ok p w wbuf" and row: "row_ok p w wbuf token"
    and ps: "0 \<le> pos" "pos < seq_len p"
    and os: "state_ok p s" and ot: "state_ok p t"
    and eq: "rs_key_cache t = rs_key_cache s" "rs_value_cache t = rs_value_cache s"
  shows "\<exists>s' att. transformer token pos p s wbuf w = Some s'
           \<and> transformer token pos p t wbuf w = Some (s'\<lparr>rs_att := att\<rparr>)
           \<and> state_ok p s'
           \<and> length att = length (rs_att s')
           \<and> (\<forall>i. att_written p pos i \<longrightarrow> att ! nat i = rs_att s' ! nat i)
           \<and> (\<forall>i. 0 \<le> i \<and> \<not> att_written p pos i \<longrightarrow>
                 rs_att s' ! nat i = rs_att s ! nat i)"
proof -
  obtain s' where rs: "transformer token pos p s wbuf w = Some s'" and os': "state_ok p s'"
    using transformer_ok[OF c os w row ps] by blast
  obtain t' where rt: "transformer token pos p t wbuf w = Some t'" and ot': "state_ok p t'"
    using transformer_ok[OF c ot w row ps] by blast
  define fr where "fr = freq_cis_real w + (pos * head_size_of p) sdiv 2"
  define fi where "fi = freq_cis_imag w + (pos * head_size_of p) sdiv 2"
  from transformer_runE[OF c rs] obtain x0 sL x' lg where
    sx: "memcpy (rs_x s) 0 wbuf (token_embedding_table w + token * dim p) (dim p) = Some x0"
    and sl: "for_loop 0 (n_layers p) (layer pos p wbuf w (head_size_of p) fr fi)
               (s\<lparr>rs_x := x0\<rparr>) = Some sL"
    and sn: "rmsnorm (rs_x sL) (rs_x sL) wbuf (rms_final_weight w) (dim p) = Some x'"
    and sm: "matmul (rs_logits sL) x' wbuf (wcls w) (dim p) (vocab_size p) = Some lg"
    and s': "s' = sL\<lparr>rs_x := x', rs_logits := lg\<rparr>"
    unfolding fr_def fi_def by blast
  from transformer_runE[OF c rt] obtain y0 tL y' lh where
    tx: "memcpy (rs_x t) 0 wbuf (token_embedding_table w + token * dim p) (dim p) = Some y0"
    and tl: "for_loop 0 (n_layers p) (layer pos p wbuf w (head_size_of p) fr fi)
               (t\<lparr>rs_x := y0\<rparr>) = Some tL"
    and tn: "rmsnorm (rs_x tL) (rs_x tL) wbuf (rms_final_weight w) (dim p) = Some y'"
    and tm: "matmul (rs_logits tL) y' wbuf (wcls w) (dim p) (vocab_size p) = Some lh"
    and t': "t' = tL\<lparr>rs_x := y', rs_logits := lh\<rparr>"
    unfolding fr_def fi_def by blast
  note ss = state_okD[OF os]
  note st = state_okD[OF ot]
  have d: "0 < dim p" "0 < n_layers p" "0 \<le> vocab_size p"
    using c by (simp_all add: config_ok_def)
  have xy: "x0 = y0"
    by (rule memcpy_indep[OF sx tx]) (use ss(1) st(1) row in \<open>auto simp: row_ok_def\<close>)
  have lx0: "length x0 = length (rs_x s)"
    using memcpy_ok[of "dim p" 0 "rs_x s" "token_embedding_table w + token * dim p" wbuf]
      sx ss(1) row d by (auto simp: row_ok_def)
  have ok0: "state_ok p (s\<lparr>rs_x := x0\<rparr>)" "state_ok p (t\<lparr>rs_x := x0\<rparr>)"
    using os ot lx0 ss(1) st(1) by (simp_all add: state_ok_def)
  define R where "R = (\<lambda>(j::int) u v. state_ok p u \<and> state_ok p v
     \<and> rs_x v = rs_x u \<and> rs_key_cache v = rs_key_cache u
     \<and> rs_value_cache v = rs_value_cache u
     \<and> rs_logits u = rs_logits s \<and> rs_logits v = rs_logits t
     \<and> (\<forall>i. 0 \<le> i \<and> \<not> att_written p pos i \<longrightarrow> rs_att u ! nat i = rs_att s ! nat i)
     \<and> (0 < j \<longrightarrow> v = u\<lparr>rs_att := rs_att v, rs_logits := rs_logits t\<rparr>
           \<and> (\<forall>i. att_written p pos i \<longrightarrow> rs_att v ! nat i = rs_att u ! nat i)))"
  have RL: "R (n_layers p) sL tL"
  proof (rule for_loop_rel[OF sl tl[folded xy]])
    show "R 0 (s\<lparr>rs_x := x0\<rparr>) (t\<lparr>rs_x := x0\<rparr>)"
      using ok0 eq by (simp add: R_def)
    show "0 \<le> n_layers p" using d by simp
  next
    fix j u v u' v'
    assume j: "0 \<le> j" "j < n_layers p" and Ruv: "R j u v"
      and bu: "layer pos p wbuf w (head_size_of p) fr fi j u = Some u'"
      and bv: "layer pos p wbuf w (head_size_of p) fr fi j v = Some v'"
    have ou: "state_ok p u" and ov: "state_ok p v"
      and e: "rs_x v = rs_x u" "rs_key_cache v = rs_key_cache u"
        "rs_value_cache v = rs_value_cache u"
      and lgs: "rs_logits u = rs_logits s" "rs_logits v = rs_logits t"
      and fu: "\<forall>i. 0 \<le> i \<and> \<not> att_written p pos i \<longrightarrow> rs_att u ! nat i = rs_att s ! nat i"
      using Ruv by (simp_all add: R_def)
    note lt = layer_tr[OF c w ps j ou ov bu[unfolded fr_def fi_def] e]
    from lt(1) bv obtain att where
      v': "v' = u'\<lparr>rs_att := att, rs_logits := rs_logits v\<rparr>"
      and wa: "\<forall>i. att_written p pos i \<longrightarrow> att ! nat i = rs_att u' ! nat i"
      and la: "length att = length (rs_att u')"
      unfolding fr_def fi_def by auto
    have ov': "state_ok p v'"
      using lt(2) la state_okD[OF ov] state_okD[OF lt(2)] lgs unfolding v'
      by (simp add: state_ok_def)
    show "R (j + 1) u' v'"
      unfolding R_def using lt(2,3,4) ov' wa lgs fu by (simp add: v')
  qed
  have f: "tL = sL\<lparr>rs_att := rs_att tL, rs_logits := rs_logits t\<rparr>"
    and wa: "\<forall>i. att_written p pos i \<longrightarrow> rs_att tL ! nat i = rs_att sL ! nat i"
    and oL: "state_ok p sL" "state_ok p tL"
    and fL: "\<forall>i. 0 \<le> i \<and> \<not> att_written p pos i \<longrightarrow> rs_att sL ! nat i = rs_att s ! nat i"
    using RL d(2) by (simp_all add: R_def)
  have xL: "rs_x tL = rs_x sL" by (subst f) simp
  have yx: "y' = x'" using tn sn unfolding xL by simp
  note sL = state_okD[OF oL(1)]
  note tL = state_okD[OF oL(2)]
  note ws = weights_okD[OF w]
  have lx': "int (length x') = dim p"
    using rmsnorm_ok[of "dim p" "rs_x sL" "rs_x sL" "rms_final_weight w" wbuf] sn sL(1) ws(19,20)
    by auto
  have "matmul (rs_logits tL) x' wbuf (wcls w) (dim p) (vocab_size p) = Some lg"
    by (rule matmul_indep[OF sm]) (use sL(10) tL(10) lx' ws(21,22) d in auto)
  then have hg: "lh = lg" using tm unfolding yx by simp
  have "t' = s'\<lparr>rs_att := rs_att tL\<rparr>"
    unfolding t' s' yx hg by (subst f) simp
  moreover have "length (rs_att tL) = length (rs_att s')"
    using sL(9) tL(9) by (simp add: s')
  moreover have "\<forall>i. att_written p pos i \<longrightarrow> rs_att tL ! nat i = rs_att s' ! nat i"
    using wa by (simp add: s')
  moreover have "\<forall>i. 0 \<le> i \<and> \<not> att_written p pos i \<longrightarrow> rs_att s' ! nat i = rs_att s ! nat i"
    using fL by (simp add: s')
  ultimately show ?thesis
    using rs rt os' by blast
qed

section \<open>What a step leaves in the scratch buffers\<close>

text \<open>
  Claim C9 says that every buffer other than the cache is fully overwritten by each
  step, \<^verbatim>\<open>att\<close> included. \<^verbatim>\<open>att\<close> has \<open>n_heads * seq_len\<close> cells, and a step at
  position \<open>pos\<close> writes only the cells of the timesteps \<open>t \<le> pos\<close>. In the small
  configuration, a step at position 0 from a state with \<open>att = [5, 7]\<close> leaves the
  second cell as it was.
\<close>

theorem att_not_fully_overwritten:
  "state_ok toy_config (toy_zero_state\<lparr>rs_att := [5, 7]\<rparr>)
   \<and> transformer 0 0 toy_config (toy_zero_state\<lparr>rs_att := [5, 7]\<rparr>) (replicate 42 0) toy_weights
       = Some (toy_zero_state\<lparr>rs_att := [1, 7]\<rparr>)"
  by (simp add: state_ok_def run_defs toy_defs)

text \<open>
  Claim C9, amended. For every position \<open>0 \<le> pos < seq_len\<close> and every token in
  range, with a well-formed configuration and checkpoint: from two run states of the
  allocated sizes that hold the same key/value cache, and anything in the other
  buffers, the forward pass gives two results that are equal in every buffer but
  \<^verbatim>\<open>att\<close> (\<^verbatim>\<open>x\<close>, \<^verbatim>\<open>xb\<close>, \<^verbatim>\<open>xb2\<close>, \<^verbatim>\<open>hb\<close>, \<^verbatim>\<open>hb2\<close>, \<^verbatim>\<open>q\<close>, \<^verbatim>\<open>k\<close>, \<^verbatim>\<open>v\<close>,
  \<^verbatim>\<open>logits\<close> and the caches), and equal in the cells of \<^verbatim>\<open>att\<close> that the step
  writes, those of the timesteps \<open>t \<le> pos\<close> of every head. So these buffers are
  overwritten and carry no state into the step; the cache is the only buffer whose
  content matters. The other cells of \<^verbatim>\<open>att\<close> are left as they were.
\<close>

theorem scratch_buffers_carry_no_state:
  assumes "config_ok p" and "checkpoint_init_weights p 0 shared_weights = Some w"
    and "weights_size p shared_weights \<le> int (length wbuf)"
    and "0 \<le> token" and "token < vocab_size p" and "0 \<le> pos" and "pos < seq_len p"
    and "state_ok p s" and "state_ok p t"
    and "rs_key_cache t = rs_key_cache s" and "rs_value_cache t = rs_value_cache s"
  shows "\<exists>s' att. transformer token pos p s wbuf w = Some s'
           \<and> transformer token pos p t wbuf w = Some (s'\<lparr>rs_att := att\<rparr>)
           \<and> length att = length (rs_att s')
           \<and> (\<forall>i. att_written p pos i \<longrightarrow> att ! nat i = rs_att s' ! nat i)
           \<and> (\<forall>i. 0 \<le> i \<and> \<not> att_written p pos i \<longrightarrow>
                 rs_att s' ! nat i = rs_att s ! nat i)"
proof -
  note w = init_weights_ok[OF assms(1,2,3)]
  from transformer_tr[OF assms(1) w(1) w(2)[OF assms(4,5)] assms(6,7,8,9,10,11)]
  show ?thesis by blast
qed

theorem scratch_buffers_carry_no_state_witness:
  "config_ok toy_config \<and> checkpoint_init_weights toy_config 0 1 = Some toy_weights
   \<and> weights_size toy_config 1 \<le> int (length (replicate 42 (0::float)))
   \<and> (0::int) \<le> 0 \<and> 0 < vocab_size toy_config \<and> 0 < seq_len toy_config
   \<and> state_ok toy_config toy_zero_state
   \<and> state_ok toy_config (toy_zero_state\<lparr>rs_att := [5, 7]\<rparr>)
   \<and> rs_key_cache (toy_zero_state\<lparr>rs_att := [5, 7]\<rparr>) = rs_key_cache toy_zero_state
   \<and> rs_value_cache (toy_zero_state\<lparr>rs_att := [5, 7]\<rparr>) = rs_value_cache toy_zero_state
   \<and> (\<exists>s' att. transformer 0 0 toy_config toy_zero_state (replicate 42 0) toy_weights = Some s'
         \<and> transformer 0 0 toy_config (toy_zero_state\<lparr>rs_att := [5, 7]\<rparr>) (replicate 42 0)
              toy_weights = Some (s'\<lparr>rs_att := att\<rparr>)
         \<and> length att = length (rs_att s')
         \<and> (\<forall>i. att_written toy_config 0 i \<longrightarrow> att ! nat i = rs_att s' ! nat i)
         \<and> (\<forall>i. 0 \<le> i \<and> \<not> att_written toy_config 0 i \<longrightarrow>
               rs_att s' ! nat i = rs_att toy_zero_state ! nat i))"
proof -
  have sz: "weights_size toy_config 1 \<le> int (length (replicate 42 (0::float)))"
    by (simp add: toy_weights_size)
  have r: "(0::int) \<le> 0" "0 < vocab_size toy_config" "0 < seq_len toy_config"
    by (simp_all add: toy_defs)
  have ok: "state_ok toy_config (toy_zero_state\<lparr>rs_att := [5, 7]\<rparr>)"
    by (simp add: state_ok_def toy_defs)
  have e: "rs_key_cache (toy_zero_state\<lparr>rs_att := [5, 7]\<rparr>) = rs_key_cache toy_zero_state"
    "rs_value_cache (toy_zero_state\<lparr>rs_att := [5, 7]\<rparr>) = rs_value_cache toy_zero_state"
    by simp_all
  show ?thesis
    using scratch_buffers_carry_no_state[OF toy_config_ok toy_init_weights sz r(1,2,1,3)
        toy_state_ok ok e]
      toy_config_ok sz r toy_state_ok ok toy_init_weights
    by simp
qed


end
